theory Spec2Isabelle
  imports Main "HOL-Library.Word"
begin

section \<open>Strings of the program\<close>

text \<open>
  A JavaScript string is a finite sequence of 16-bit code units. The literals of
  \<^verbatim>\<open>background.js\<close> are ASCII, so they are written as HOL strings and embedded
  with \<open>js\<close>.
\<close>

type_synonym code_unit = "16 word"
type_synonym jsstring = "code_unit list"

definition js :: "string \<Rightarrow> jsstring" where
  "js s = map of_char s"

definition LF :: code_unit where
  \<comment> \<open>the code unit of \<^verbatim>\<open>'\n'\<close>\<close>
  "LF = 0x0A"

section \<open>Tab descriptors and the tab formatter\<close>

text \<open>
  The fields of a \<^verbatim>\<open>chrome.tabs.Tab\<close> that \<^verbatim>\<open>background.js\<close> reads.
\<close>

record tab =
  url :: jsstring
  title :: jsstring
  windowId :: int
  highlighted :: bool

text \<open>
  \<^verbatim>\<open>CopyTo.text\<close>:
  \<^verbatim>\<open>let s = ''; for (let i = 0; i < tabs.length; i++) { s += tabs[i].url + '\n'; } return s;\<close>
  The loop is the function \<open>text_loop\<close> on the index \<open>i\<close> and the accumulator \<open>s\<close>.
\<close>

function text_loop :: "tab list \<Rightarrow> nat \<Rightarrow> jsstring \<Rightarrow> jsstring" where
  "text_loop tabs i s =
     (if i < length tabs then text_loop tabs (i + 1) (s @ (url (tabs ! i) @ [LF])) else s)"
  by pat_completeness auto
termination
  by (relation "measure (\<lambda>(tabs, i, s). length tabs - i)") auto

declare text_loop.simps [simp del]

definition CopyTo_text :: "tab list \<Rightarrow> jsstring" where
  "CopyTo_text tabs = text_loop tabs 0 []"

section \<open>String primitives of the host language\<close>

text \<open>
  \<^verbatim>\<open>String.prototype.split("\n")\<close>: the segments between the newline code units, scanned
  left to right; \<open>cur\<close> is the segment being read. The empty string gives one empty
  segment.
\<close>

fun split_from :: "jsstring \<Rightarrow> jsstring \<Rightarrow> jsstring list" where
  "split_from cur [] = [cur]"
| "split_from cur (c # cs) =
     (if c = LF then cur # split_from [] cs else split_from (cur @ [c]) cs)"

definition String_split :: "jsstring \<Rightarrow> jsstring list" where
  "String_split s = split_from [] s"

text \<open>
  \<^verbatim>\<open>String.prototype.trim\<close> removes the code units of WhiteSpace and LineTerminator
  (ECMAScript): TAB, LF, VT, FF, CR, SP, NBSP, U+1680, U+2000 to U+200A, U+2028, U+2029,
  U+202F, U+205F, U+3000 and U+FEFF, from both ends.
\<close>

definition is_space :: "code_unit \<Rightarrow> bool" where
  "is_space c =
     (unat c \<in> {0x09, 0x0A, 0x0B, 0x0C, 0x0D, 0x20, 0xA0, 0x1680, 0x2028, 0x2029,
                0x202F, 0x205F, 0x3000, 0xFEFF}
      \<or> (0x2000 \<le> unat c \<and> unat c \<le> 0x200A))"

definition String_trim :: "jsstring \<Rightarrow> jsstring" where
  "String_trim s = rev (dropWhile is_space (rev (dropWhile is_space s)))"

text \<open>
  \<^verbatim>\<open>function trim(str) { return str ? str.trim() : ''; }\<close>; a string is truthy when it
  is not empty.
\<close>

definition trim :: "jsstring \<Rightarrow> jsstring" where
  "trim str = (if str \<noteq> [] then String_trim str else [])"

section \<open>The regular expressions\<close>

text \<open>
  Both patterns carry the flag \<^verbatim>\<open>i\<close> and not the flag \<^verbatim>\<open>u\<close>: a pattern character
  matches a code unit when their canonical forms agree. On ASCII the canonical form is
  the upper-case letter; a code unit from 128 on is never mapped below 128, and every
  pattern character of this program is ASCII, so \<open>canon\<close> decides each comparison the
  patterns make.
\<close>

definition canon :: "code_unit \<Rightarrow> code_unit" where
  "canon c = (if 0x61 \<le> unat c \<and> unat c \<le> 0x7A then c - 0x20 else c)"

definition ci_eq :: "code_unit \<Rightarrow> code_unit \<Rightarrow> bool" where
  "ci_eq p c = (canon p = canon c)"

text \<open>A literal of the pattern at the start of \<open>s\<close>: what follows it, when it matches.\<close>

fun literal_ci :: "jsstring \<Rightarrow> jsstring \<Rightarrow> jsstring option" where
  "literal_ci [] s = Some s"
| "literal_ci (p # ps) [] = None"
| "literal_ci (p # ps) (c # cs) = (if ci_eq p c then literal_ci ps cs else None)"

definition LT :: code_unit where "LT = 0x3C"
definition GT :: code_unit where "GT = 0x3E"
definition QUOTE :: code_unit where "QUOTE = 0x22"

text \<open>
  \<^verbatim>\<open>new RegExp('<a[^>]+href="([^"]+)"', 'i')\<close>, as the backtracking matcher runs it.
  \<open>href_value\<close> is the end of the pattern, \<^verbatim>\<open>href="([^"]+)"\<close>, at the start of \<open>s\<close>:
  the greedy group takes every code unit up to the next quote, needs one at least, and
  the quote has to be there. Its result is the captured group.
\<close>

definition href_value :: "jsstring \<Rightarrow> jsstring option" where
  "href_value s =
     (case literal_ci (js ''href='' @ [QUOTE]) s of
        None \<Rightarrow> None
      | Some r \<Rightarrow>
          (let v = takeWhile (\<lambda>c. c \<noteq> QUOTE) r
           in if v \<noteq> [] \<and> length v < length r then Some v else None))"

text \<open>
  \<^verbatim>\<open>[^>]*href="([^"]+)"\<close> at the start of \<open>s\<close>. The repetition is greedy: the matcher
  first takes one more code unit, and only when the rest fails that way does it try
  \<^verbatim>\<open>href\<close> here.
\<close>

fun anchor_rest :: "jsstring \<Rightarrow> jsstring option" where
  "anchor_rest [] = href_value []"
| "anchor_rest (c # cs) =
     (if c \<noteq> GT
      then (case anchor_rest cs of Some v \<Rightarrow> Some v | None \<Rightarrow> href_value (c # cs))
      else href_value (c # cs))"

text \<open>The whole pattern at the start of \<open>s\<close>: \<^verbatim>\<open><a\<close>, one code unit other than \<^verbatim>\<open>>\<close>, the rest.\<close>

definition anchor_at :: "jsstring \<Rightarrow> jsstring option" where
  "anchor_at s =
     (case s of
        lt # a # c # cs \<Rightarrow>
          if lt = LT \<and> ci_eq (of_char CHR ''a'') a \<and> c \<noteq> GT then anchor_rest cs else None
      | _ \<Rightarrow> None)"

text \<open>
  \<^verbatim>\<open>val.match(re)\<close> without the flag \<^verbatim>\<open>g\<close>: the match at the leftmost index that
  has one; the result here is \<^verbatim>\<open>matches[1]\<close>, and \<open>None\<close> is \<^verbatim>\<open>null\<close>.
\<close>

fun anchor_search :: "jsstring \<Rightarrow> jsstring option" where
  "anchor_search [] = anchor_at []"
| "anchor_search (c # cs) =
     (case anchor_at (c # cs) of Some v \<Rightarrow> Some v | None \<Rightarrow> anchor_search cs)"

text \<open>
  \<^verbatim>\<open>/(https?|ftp|ssh|mailto):\/\/[a-z0-9\/:%_+.,#?!@&=-]+/gi\<close>.
  \<open>url_class\<close> is the character class as it is written, \<open>url_char\<close> the class under the
  flag \<^verbatim>\<open>i\<close>.
\<close>

definition url_class :: "code_unit \<Rightarrow> bool" where
  "url_class c =
     ((0x61 \<le> unat c \<and> unat c \<le> 0x7A) \<or> (0x30 \<le> unat c \<and> unat c \<le> 0x39)
      \<or> c \<in> set (js ''/:%_+.,#?!@&=-''))"

definition url_char :: "code_unit \<Rightarrow> bool" where
  "url_char c = (url_class c \<or> (0x41 \<le> unat c \<and> unat c \<le> 0x5A \<and> url_class (c + 0x20)))"

text \<open>
  \<^verbatim>\<open>:\/\/[a-z0-9\/:%_+.,#?!@&=-]+\<close> at the start of \<open>s\<close>: the number of code units
  matched. The class is repeated greedily and nothing follows it, so the longest run is
  the match.
\<close>

definition url_tail :: "jsstring \<Rightarrow> nat option" where
  "url_tail s =
     (case literal_ci (js ''://'') s of
        None \<Rightarrow> None
      | Some r \<Rightarrow>
          (let n = length (takeWhile url_char r) in if 0 < n then Some (3 + n) else None))"

text \<open>
  The alternatives of the group in the order the matcher tries them: \<^verbatim>\<open>https?\<close> is
  greedy, so \<^verbatim>\<open>https\<close> comes before \<^verbatim>\<open>http\<close>. The result is the length of the match
  at the start of \<open>s\<close>.
\<close>

fun try_schemes :: "string list \<Rightarrow> jsstring \<Rightarrow> nat option" where
  "try_schemes [] s = None"
| "try_schemes (p # ps) s =
     (case (case literal_ci (js p) s of None \<Rightarrow> None | Some r \<Rightarrow> url_tail r) of
        Some n \<Rightarrow> Some (length p + n)
      | None \<Rightarrow> try_schemes ps s)"

definition url_at :: "jsstring \<Rightarrow> nat option" where
  "url_at s = try_schemes [''https'', ''http'', ''ftp'', ''ssh'', ''mailto''] s"

text \<open>
  \<^verbatim>\<open>String.prototype.match\<close> with the flag \<^verbatim>\<open>g\<close>: the matches from left to right, each
  search starting where the last match ended (one further after an empty match).
\<close>

function url_scan :: "jsstring \<Rightarrow> jsstring list" where
  "url_scan [] = []"
| "url_scan (c # cs) =
     (case url_at (c # cs) of
        Some n \<Rightarrow> take n (c # cs) # url_scan (drop (max n 1) (c # cs))
      | None \<Rightarrow> url_scan cs)"
  by pat_completeness auto
termination
  by (relation "measure length") (auto simp: max_def)

text \<open>The result of \<^verbatim>\<open>match\<close> is \<^verbatim>\<open>null\<close> when there is no match.\<close>

definition String_match_urls :: "jsstring \<Rightarrow> jsstring list option" where
  "String_match_urls s = (case url_scan s of [] \<Rightarrow> None | m # ms \<Rightarrow> Some (m # ms))"

section \<open>The host: messages, windows, tabs, the offscreen document\<close>

text \<open>
  The messages \<^verbatim>\<open>background.js\<close> sends with \<^verbatim>\<open>chrome.runtime.sendMessage\<close>:
  \<^verbatim>\<open>{type: "paste", errorMsg?}\<close>, \<^verbatim>\<open>{type: "copy", copied_url}\<close>,
  \<^verbatim>\<open>{target: 'offscreen', action: 'copy', text, extendedMime}\<close> and
  \<^verbatim>\<open>{target: 'offscreen', action: 'paste'}\<close>. \<open>None\<close> is \<^verbatim>\<open>undefined\<close>.
\<close>

datatype runtime_message =
    Paste_notice "jsstring option"
  | Copy_notice nat
  | Offscreen_copy "jsstring option" "bool option"
  | Offscreen_paste

text \<open>What an action asks of the host, in the order it asks.\<close>

datatype effect = SendMessage runtime_message | TabsCreate jsstring

text \<open>
  The object an action returns, \<^verbatim>\<open>{count}\<close> or \<^verbatim>\<open>{count, error}\<close>, and the object
  the message listener passes to \<^verbatim>\<open>sendResponse\<close>.
\<close>

record action_result =
  count :: nat
  error :: "jsstring option"

record response =
  success :: bool
  resp_count :: "nat option"
  resp_error :: "jsstring option"

text \<open>
  A window object as the program reads it: \<^verbatim>\<open>{}\<close> has no \<^verbatim>\<open>id\<close>. The copy message
  is \<^verbatim>\<open>{action: "copy", window, allWindows}\<close>, the option of \<^verbatim>\<open>Action.copy\<close> is
  \<^verbatim>\<open>{window, message}\<close>, the paste message is \<^verbatim>\<open>{action: "paste", intelligent}\<close>.
\<close>

record window =
  window_id :: "int option"

record copy_message =
  msg_window :: "window option"
  allWindows :: "bool option"

record copy_opt =
  opt_window :: "window option"
  opt_message :: "copy_message option"

record paste_message =
  intelligent :: "bool option"

text \<open>The query object handed to \<^verbatim>\<open>chrome.tabs.query\<close>: \<^verbatim>\<open>{}\<close> or \<^verbatim>\<open>{windowId}\<close>.\<close>

record tab_query =
  q_windowId :: "int option"

text \<open>
  The document of the helper, whose script \<^verbatim>\<open>offscreen.html\<close> loads: the value of the textarea
  \<^verbatim>\<open>clipboardBuffer\<close>, the selected text, and \<^verbatim>\<open>document.oncopy\<close>. A handler is the
  closure \<^verbatim>\<open>writeToClipboard\<close> installs, with the \<^verbatim>\<open>text\<close> and \<^verbatim>\<open>extendedMime\<close> it
  captured, or a handler of other code, which this program only saves and restores.
\<close>

datatype oncopy_handler = Foreign_handler nat | Write_handler jsstring "bool option"

record helper_doc =
  buffer_value :: jsstring
  selection :: jsstring
  oncopy :: "oncopy_handler option"

text \<open>
  The system clipboard holds one datum per MIME type. A copy event carries the data its
  handler set and whether the handler prevented the default action.
\<close>

type_synonym clipboard = "(string \<times> jsstring) list"

record copy_event =
  defaultPrevented :: bool
  clipboardData :: clipboard

text \<open>
  The state of the browser that the program observes: the open tabs, the current
  window, the offscreen document of the extension (the host allows one at most), and
  the number of calls of \<^verbatim>\<open>chrome.offscreen.createDocument\<close> so far.
\<close>

record browser =
  open_tabs :: "tab list"
  current_window :: "window option"
  offscreen :: "helper_doc option"
  createDocument_calls :: nat

text \<open>
  \<^verbatim>\<open>chrome.runtime.getContexts({contextTypes: ['OFFSCREEN_DOCUMENT']})\<close> lists the
  offscreen document when there is one. \<^verbatim>\<open>chrome.offscreen.createDocument\<close> opens
  \<^verbatim>\<open>offscreen.html\<close>, and is rejected by the host when a document is already open.
\<close>

datatype host_error = Single_offscreen_document

definition new_document :: helper_doc where
  "new_document = \<lparr>buffer_value = [], selection = [], oncopy = None\<rparr>"

definition getContexts :: "browser \<Rightarrow> helper_doc list" where
  "getContexts b = (case offscreen b of None \<Rightarrow> [] | Some d \<Rightarrow> [d])"

definition createDocument :: "browser \<Rightarrow> (host_error + unit) \<times> browser" where
  "createDocument b =
     (let b1 = b\<lparr>createDocument_calls := createDocument_calls b + 1\<rparr>
      in case offscreen b of
           None \<Rightarrow> (Inr (), b1\<lparr>offscreen := Some new_document\<rparr>)
         | Some d \<Rightarrow> (Inl Single_offscreen_document, b1))"

text \<open>
  \<^verbatim>\<open>chrome.tabs.query\<close>: every tab for \<^verbatim>\<open>{}\<close>, the tabs of the window for
  \<^verbatim>\<open>{windowId}\<close>.
\<close>

definition chrome_tabs_query :: "tab_query \<Rightarrow> tab list \<Rightarrow> tab list" where
  "chrome_tabs_query q ts =
     (case q_windowId q of None \<Rightarrow> ts | Some w \<Rightarrow> filter (\<lambda>t. windowId t = w) ts)"

section \<open>The helper: \<^verbatim>\<open>writeToClipboard\<close>\<close>

text \<open>
  The handler that \<^verbatim>\<open>writeToClipboard\<close> installs returns at once unless
  \<^verbatim>\<open>extendedMime\<close> is \<^verbatim>\<open>true\<close>; otherwise it prevents the default action and sets
  both MIME types to \<^verbatim>\<open>text\<close>.
\<close>

definition write_handler :: "jsstring \<Rightarrow> bool option \<Rightarrow> copy_event \<Rightarrow> copy_event" where
  "write_handler text_arg extendedMime e =
     (if extendedMime = None \<or> extendedMime \<noteq> Some True then e
      else e\<lparr>defaultPrevented := True,
             clipboardData :=
               clipboardData e @ [(''text/html'', text_arg), (''text/plain'', text_arg)]\<rparr>)"

definition run_handler :: "oncopy_handler \<Rightarrow> copy_event \<Rightarrow> copy_event" where
  "run_handler h e =
     (case h of Write_handler t m \<Rightarrow> write_handler t m e | Foreign_handler n \<Rightarrow> e)"

text \<open>
  \<^verbatim>\<open>document.execCommand('copy')\<close>: the copy event goes to \<^verbatim>\<open>document.oncopy\<close>; when
  the default action is not prevented the selection becomes the plain text of the
  clipboard, otherwise the data of the event does.
\<close>

definition execCommand_copy :: "helper_doc \<Rightarrow> clipboard \<Rightarrow> clipboard" where
  "execCommand_copy d cb =
     (let e0 = \<lparr>defaultPrevented = False, clipboardData = []\<rparr>;
          e = (case oncopy d of None \<Rightarrow> e0 | Some h \<Rightarrow> run_handler h e0)
      in if defaultPrevented e then clipboardData e else [(''text/plain'', selection d)])"

text \<open>
  \<^verbatim>\<open>function writeToClipboard(text, extendedMime)\<close>, statement by statement.
  \<^verbatim>\<open>!text\<close> holds of \<^verbatim>\<open>undefined\<close> and of the empty string.
\<close>

definition writeToClipboard ::
  "jsstring option \<Rightarrow> bool option \<Rightarrow> helper_doc \<times> clipboard \<Rightarrow> helper_doc \<times> clipboard" where
  "writeToClipboard text_arg extendedMime st =
     (let (d, cb) = st;
          text1 = (case text_arg of None \<Rightarrow> js ''<empty>''
                   | Some t \<Rightarrow> if t = [] then js ''<empty>'' else t);
          d1 = d\<lparr>buffer_value := text1\<rparr>;
          d2 = d1\<lparr>selection := buffer_value d1\<rparr>;
          oncopyBackup = oncopy d2;
          d3 = d2\<lparr>oncopy := Some (Write_handler text1 extendedMime)\<rparr>;
          cb1 = execCommand_copy d3 cb;
          d4 = d3\<lparr>oncopy := oncopyBackup\<rparr>
      in (d4, cb1))"

text \<open>
  \<^verbatim>\<open>readFromClipboard\<close>: the textarea is emptied and selected, the paste command puts
  the plain text of the clipboard into it, and its value is returned.
\<close>

definition readFromClipboard ::
  "helper_doc \<times> clipboard \<Rightarrow> jsstring \<times> (helper_doc \<times> clipboard)" where
  "readFromClipboard st =
     (let (d, cb) = st;
          d1 = d\<lparr>buffer_value := []\<rparr>;
          d2 = d1\<lparr>selection := buffer_value d1\<rparr>;
          d3 = d2\<lparr>buffer_value :=
                 (case map_of cb ''text/plain'' of None \<Rightarrow> [] | Some t \<Rightarrow> t)\<rparr>
      in (buffer_value d3, (d3, cb)))"

text \<open>
  The listener of the helper: a message whose target is not \<^verbatim>\<open>'offscreen'\<close> is left
  alone, \<^verbatim>\<open>'copy'\<close> calls \<^verbatim>\<open>writeToClipboard(message.text, message.extendedMime)\<close>,
  \<^verbatim>\<open>'paste'\<close> calls \<^verbatim>\<open>readFromClipboard()\<close>.
\<close>

definition helper_onMessage ::
  "runtime_message \<Rightarrow> helper_doc \<times> clipboard \<Rightarrow> helper_doc \<times> clipboard" where
  "helper_onMessage m st =
     (case m of
        Offscreen_copy t x \<Rightarrow> writeToClipboard t x st
      | Offscreen_paste \<Rightarrow> snd (readFromClipboard st)
      | _ \<Rightarrow> st)"

section \<open>The supervisor: \<^verbatim>\<open>background.js\<close>\<close>

text \<open>
  \<^verbatim>\<open>createOffscreenDocumentIfNeeded\<close>: returns when a context exists, creates the
  document otherwise; an error of the host is caught and dropped.
\<close>

definition createOffscreenDocumentIfNeeded :: "browser \<Rightarrow> browser" where
  "createOffscreenDocumentIfNeeded b =
     (let existingContexts = getContexts b
      in if length existingContexts > 0 then b
         else (case createDocument b of (Inr u, b1) \<Rightarrow> b1 | (Inl e, b1) \<Rightarrow> b1))"

text \<open>
  \<^verbatim>\<open>Clipboard.write(str, extended_mime)\<close>: the placeholder for \<^verbatim>\<open>''\<close> and
  \<^verbatim>\<open>undefined\<close>, the helper made ready, the message to the helper.
\<close>

definition Clipboard_write ::
  "jsstring option \<Rightarrow> bool option \<Rightarrow> browser \<Rightarrow> runtime_message \<times> browser" where
  "Clipboard_write str extended_mime b =
     (let str1 = (if str = Some [] \<or> str = None then Some (js ''<empty>'') else str);
          b1 = createOffscreenDocumentIfNeeded b
      in (Offscreen_copy str1 extended_mime, b1))"

subsection \<open>\<^verbatim>\<open>Action.copy\<close> and the copy branch of the listener\<close>

text \<open>
  The synchronous part of \<^verbatim>\<open>Action.copy\<close> up to the call of \<^verbatim>\<open>chrome.tabs.query\<close>:
  \<^verbatim>\<open>getAllWindows\<close> is \<^verbatim>\<open>opt.message.allWindows\<close> when that is defined and \<^verbatim>\<open>true\<close>
  otherwise; the query gets a \<^verbatim>\<open>windowId\<close> under
  \<^verbatim>\<open>!getAllWindows && opt.window && opt.window.id\<close>, where an id is truthy when it is
  defined and not \<^verbatim>\<open>0\<close>; \<open>truthy_id\<close> is the id of a window that passes the test.
\<close>

definition getAllWindows :: "copy_opt \<Rightarrow> bool" where
  "getAllWindows opt =
     (case opt_message opt of
        None \<Rightarrow> True
      | Some m \<Rightarrow> (case allWindows m of None \<Rightarrow> True | Some a \<Rightarrow> a))"

definition truthy_id :: "window option \<Rightarrow> int option" where
  "truthy_id w =
     (case w of
        None \<Rightarrow> None
      | Some win \<Rightarrow> (case window_id win of None \<Rightarrow> None
                     | Some i \<Rightarrow> if i \<noteq> 0 then Some i else None))"

definition copy_tabQuery :: "copy_opt \<Rightarrow> tab_query" where
  "copy_tabQuery opt =
     (if \<not> getAllWindows opt
      then (case truthy_id (opt_window opt) of
              Some i \<Rightarrow> \<lparr>q_windowId = Some i\<rparr>
            | None \<Rightarrow> \<lparr>q_windowId = None\<rparr>)
      else \<lparr>q_windowId = None\<rparr>)"

text \<open>
  The callback given to \<^verbatim>\<open>chrome.tabs.query\<close>: it sets \<^verbatim>\<open>tabCount\<close>, formats the
  tabs, calls \<^verbatim>\<open>Clipboard.write\<close> and tells the popup the number of tabs. The record
  holds the value of \<^verbatim>\<open>tabCount\<close> after the callback, the filtered tabs, the text, and
  the messages in the order they are sent: \<^verbatim>\<open>Clipboard.write\<close> is an \<^verbatim>\<open>async\<close> function
  that awaits \<^verbatim>\<open>createOffscreenDocumentIfNeeded\<close> before it sends, so the message of
  the callback, \<^verbatim>\<open>{type: "copy"}\<close>, goes out first.
\<close>

record copy_run =
  tabCount :: nat
  tabs_filtered :: "tab list"
  outputText :: jsstring
  sent :: "runtime_message list"

definition copy_callback :: "tab list \<Rightarrow> browser \<Rightarrow> copy_run \<times> browser" where
  "copy_callback tabs b =
     (let highlighted_tab_only = False;
          extended_mime = False;
          filtered = (if highlighted_tab_only then filter highlighted tabs else tabs);
          n = length filtered;
          out = CopyTo_text filtered;
          (m, b1) = Clipboard_write (Some out) (Some extended_mime) b
      in (\<lparr>tabCount = n, tabs_filtered = filtered, outputText = out,
           sent = [Copy_notice n, m]\<rparr>, b1))"

text \<open>
  \<^verbatim>\<open>Action.copy\<close>. The host calls the callback of \<^verbatim>\<open>chrome.tabs.query\<close> after the
  running function has returned, so \<^verbatim>\<open>return { count: tabCount }\<close> reads the variable
  as it was initialised, and the query stays behind as a pending call.
\<close>

datatype pending = Tabs_query tab_query

definition Action_copy :: "copy_opt \<Rightarrow> action_result \<times> pending" where
  "Action_copy opt =
     (let tabCount0 = 0;
          tabQuery = copy_tabQuery opt
      in (\<lparr>count = tabCount0, error = None\<rparr>, Tabs_query tabQuery))"

definition run_pending :: "pending \<Rightarrow> browser \<Rightarrow> copy_run \<times> browser" where
  "run_pending p b =
     (case p of Tabs_query q \<Rightarrow> copy_callback (chrome_tabs_query q (open_tabs b)) b)"

text \<open>
  The copy branch of the message listener: the current window of the host stands in
  when the message has no window or no truthy id; the reply is
  \<^verbatim>\<open>{success: true, count: result.count}\<close>. Afterwards the host runs the pending
  callback. \<^verbatim>\<open>Action.copy\<close> catches every exception, so the branch that replies
  \<^verbatim>\<open>{success: false}\<close> is never taken.
\<close>

definition onMessage_copy :: "copy_message \<Rightarrow> browser \<Rightarrow> response \<times> copy_run \<times> browser" where
  "onMessage_copy message b =
     (let win = (if truthy_id (msg_window message) = None then current_window b
                 else msg_window message);
          (result, p) = Action_copy \<lparr>opt_window = win, opt_message = Some message\<rparr>;
          reply = \<lparr>success = True, resp_count = Some (count result), resp_error = None\<rparr>;
          (run, b1) = run_pending p b
      in (reply, run, b1))"

subsection \<open>\<^verbatim>\<open>Action.paste\<close> and the paste branch of the listener\<close>

text \<open>
  The first \<^verbatim>\<open>$.each\<close> of \<^verbatim>\<open>Action.paste\<close>, over the array it updates: at index
  \<open>key\<close> the captured URL replaces a line that matches the anchor pattern
  (\<^verbatim>\<open>matches && matches[1]\<close>: a match with a non-empty group), and the entry is trimmed.
\<close>

definition unwrap_entry :: "jsstring list \<Rightarrow> nat \<Rightarrow> jsstring \<Rightarrow> jsstring list" where
  "unwrap_entry urlList key val =
     (let urlList1 = (case anchor_search val of
                        None \<Rightarrow> urlList
                      | Some m1 \<Rightarrow> if m1 \<noteq> [] then urlList[key := m1] else urlList)
      in urlList1[key := trim (urlList1 ! key)])"

function unwrap_loop :: "jsstring list \<Rightarrow> nat \<Rightarrow> jsstring list" where
  "unwrap_loop urlList i =
     (if i < length urlList then unwrap_loop (unwrap_entry urlList i (urlList ! i)) (i + 1)
      else urlList)"
  by pat_completeness auto
termination
  by (relation "measure (\<lambda>(urlList, i). length urlList - i)")
     (auto simp: unwrap_entry_def Let_def split: option.splits)

declare unwrap_loop.simps [simp del]

text \<open>
  What the loop leaves at an index, as a function of the entry it finds there: the
  callback reads and writes the entry of its own index only.
\<close>

definition unwrapped :: "jsstring \<Rightarrow> jsstring" where
  "unwrapped seg = String_trim (case anchor_search seg of None \<Rightarrow> seg | Some u \<Rightarrow> u)"

text \<open>The second \<^verbatim>\<open>$.each\<close>: \<^verbatim>\<open>chrome.tabs.create({url: val})\<close> for every entry.\<close>

function create_loop :: "jsstring list \<Rightarrow> nat \<Rightarrow> effect list \<Rightarrow> effect list" where
  "create_loop urlList i effs =
     (if i < length urlList then create_loop urlList (i + 1) (effs @ [TabsCreate (urlList ! i)])
      else effs)"
  by pat_completeness auto
termination
  by (relation "measure (\<lambda>(urlList, i, effs). length urlList - i)") auto

declare create_loop.simps [simp del]

text \<open>
  \<^verbatim>\<open>Action.paste\<close>, for the text \<^verbatim>\<open>clipboardString\<close> that \<^verbatim>\<open>Clipboard.read()\<close> gave.
  The result is the returned object and what was asked of the host. No statement of
  the body throws on a string, so the \<^verbatim>\<open>catch\<close> branch has no case here.
\<close>

definition no_url_found :: jsstring where
  "no_url_found = js ''No URL found in the clipboard''"

definition Action_paste :: "paste_message \<Rightarrow> jsstring \<Rightarrow> action_result \<times> effect list" where
  "Action_paste message clipboardString =
     (let useIntelligentPaste = (intelligent message = Some True);
          urlList0 = (if useIntelligentPaste then String_match_urls clipboardString
                      else Some (String_split clipboardString))
      in case urlList0 of
           None \<Rightarrow>
             (\<lparr>count = 0, error = Some no_url_found\<rparr>,
              [SendMessage (Paste_notice (Some no_url_found))])
         | Some urlList1 \<Rightarrow>
             (let urlList2 = unwrap_loop urlList1 0;
                  urlList3 = filter (\<lambda>u. u \<noteq> []) urlList2;
                  urlCount = length urlList3
              in (\<lparr>count = urlCount, error = None\<rparr>,
                  create_loop urlList3 0 [] @ [SendMessage (Paste_notice None)])))"

text \<open>
  The paste branch of the listener. \<^verbatim>\<open>Action.paste\<close> is an \<^verbatim>\<open>async\<close> function and
  the listener does not await it: \<^verbatim>\<open>result\<close> is the promise, and a promise has no
  property \<^verbatim>\<open>count\<close>, so the reply is \<^verbatim>\<open>{success: true, count: undefined}\<close>. The
  effects of the action happen all the same.
\<close>

datatype 'a promise = Promise 'a

definition promise_count :: "action_result promise \<Rightarrow> nat option" where
  "promise_count p = None"

definition onMessage_paste :: "paste_message \<Rightarrow> jsstring \<Rightarrow> response \<times> effect list" where
  "onMessage_paste message clipboardString =
     (let (settled, effs) = Action_paste message clipboardString;
          result = Promise settled;
          reply = \<lparr>success = True, resp_count = promise_count result, resp_error = None\<rparr>
      in (reply, effs))"

text \<open>
  The URL extractor is the part of \<^verbatim>\<open>Action.paste\<close> between the clipboard and the
  tabs: the URLs for which a tab is requested.
\<close>

definition created_urls :: "effect list \<Rightarrow> jsstring list" where
  "created_urls effs = concat (map (\<lambda>e. case e of TabsCreate u \<Rightarrow> [u] | _ \<Rightarrow> []) effs)"

definition extract_urls :: "paste_message \<Rightarrow> jsstring \<Rightarrow> jsstring list" where
  "extract_urls message clipboardString = created_urls (snd (Action_paste message clipboardString))"

section \<open>The specification's words\<close>

text \<open>
  The two modes of the URL extractor, as messages: \<^verbatim>\<open>intelligent: false\<close> is the
  line mode that the popup sends, \<^verbatim>\<open>intelligent: true\<close> the pattern mode.
\<close>

definition LineSplit :: paste_message where
  "LineSplit = \<lparr>intelligent = Some False\<rparr>"

definition RegexExtract :: paste_message where
  "RegexExtract = \<lparr>intelligent = Some True\<rparr>"

text \<open>
  The specification of the line mode, in its own words. A string begins with an anchor
  when it is \<^verbatim>\<open><a\<close> in any case, then one character or more other than \<^verbatim>\<open>>\<close>, then
  \<^verbatim>\<open>href="\<close> in any case, then the URL, one character or more other than the quote,
  then the quote. In \<open>spec_anchor_at s mid u\<close> the part between \<^verbatim>\<open><a\<close> and
  \<^verbatim>\<open>href\<close> is \<open>mid\<close> and the URL is \<open>u\<close>.
\<close>

definition spec_anchor_at :: "jsstring \<Rightarrow> jsstring \<Rightarrow> jsstring \<Rightarrow> bool" where
  "spec_anchor_at s mid u =
     (\<exists>a h rest.
        s = LT # a # mid @ h @ u @ QUOTE # rest
        \<and> ci_eq (of_char CHR ''a'') a \<and> mid \<noteq> [] \<and> GT \<notin> set mid
        \<and> list_all2 ci_eq (js ''href='' @ [QUOTE]) h
        \<and> u \<noteq> [] \<and> QUOTE \<notin> set u)"

text \<open>
  The anchor that the pattern finds in a segment is the leftmost one, and where several
  begin at the same place, the one with the longest part before \<^verbatim>\<open>href\<close>.
  \<open>spec_capture s u\<close> says that \<open>u\<close> is the URL of that anchor, and
  \<open>spec_no_anchor s\<close> that no anchor begins anywhere in \<open>s\<close>.
\<close>

definition spec_anchor_here :: "jsstring \<Rightarrow> jsstring \<Rightarrow> bool" where
  "spec_anchor_here s u =
     (\<exists>mid. spec_anchor_at s mid u
        \<and> (\<forall>mid' u'. spec_anchor_at s mid' u' \<longrightarrow> length mid' \<le> length mid))"

definition spec_anchor_absent :: "jsstring \<Rightarrow> bool" where
  "spec_anchor_absent s = (\<forall>mid u. \<not> spec_anchor_at s mid u)"

definition spec_capture :: "jsstring \<Rightarrow> jsstring \<Rightarrow> bool" where
  "spec_capture s u =
     (\<exists>i. spec_anchor_here (drop i s) u \<and> (\<forall>j<i. spec_anchor_absent (drop j s)))"

definition spec_no_anchor :: "jsstring \<Rightarrow> bool" where
  "spec_no_anchor s = (\<forall>i. spec_anchor_absent (drop i s))"

text \<open>
  Trimming removes the whitespace at both ends and nothing else: \<open>r\<close> is \<open>s\<close> trimmed
  when \<open>s\<close> is \<open>r\<close> between two runs of whitespace and \<open>r\<close> neither begins nor ends
  with whitespace.
\<close>

definition spec_trim :: "jsstring \<Rightarrow> jsstring \<Rightarrow> bool" where
  "spec_trim s r =
     (\<exists>a b. s = a @ r @ b \<and> (\<forall>c \<in> set a. is_space c) \<and> (\<forall>c \<in> set b. is_space c)
        \<and> (r = [] \<or> (\<not> is_space (hd r) \<and> \<not> is_space (last r))))"

text \<open>
  A segment that holds an anchor is replaced by the anchor's URL, and the result is
  trimmed: \<open>spec_line seg r\<close> says that \<open>r\<close> is what the line mode makes of the segment
  \<open>seg\<close>, before the empty results are dropped.
\<close>

definition spec_line :: "jsstring \<Rightarrow> jsstring \<Rightarrow> bool" where
  "spec_line seg r =
     ((\<exists>u. spec_capture seg u \<and> spec_trim u r) \<or> (spec_no_anchor seg \<and> spec_trim seg r))"

text \<open>
  The specification of the pattern mode. A string matches the URL pattern when it is
  one of the schemes in any case, then \<^verbatim>\<open>://\<close>, then one permitted character or
  more. The matches of a text are found from left to right: no match begins before the
  first one, the match runs as far as the permitted characters go, and the search goes
  on behind it.
\<close>

definition scheme_names :: "string list" where
  "scheme_names = [''http'', ''https'', ''ftp'', ''ssh'', ''mailto'']"

definition spec_url_pattern :: "jsstring \<Rightarrow> bool" where
  "spec_url_pattern m =
     (\<exists>p \<in> set scheme_names. \<exists>pre body.
        m = pre @ js ''://'' @ body \<and> list_all2 ci_eq (js p) pre
        \<and> body \<noteq> [] \<and> (\<forall>c \<in> set body. url_char c))"

definition spec_match_begins :: "jsstring \<Rightarrow> bool" where
  "spec_match_begins s = (\<exists>m r. s = m @ r \<and> spec_url_pattern m)"

inductive spec_url_matches :: "jsstring \<Rightarrow> jsstring list \<Rightarrow> bool" where
  no_more:
    "(\<And>i. i < length s \<Longrightarrow> \<not> spec_match_begins (drop i s)) \<Longrightarrow> spec_url_matches s []"
| next_match:
    "s = g @ m @ r \<Longrightarrow> (\<And>i. i < length g \<Longrightarrow> \<not> spec_match_begins (drop i s)) \<Longrightarrow>
     spec_url_pattern m \<Longrightarrow> r = [] \<or> \<not> url_char (hd r) \<Longrightarrow> spec_url_matches r ms \<Longrightarrow>
     spec_url_matches s (m # ms)"

text \<open>
  The specification of the clipboard write: the text that has to reach the clipboard is
  the placeholder for \<^verbatim>\<open>undefined\<close> and for the empty string, and the text itself
  otherwise. \<open>clipboard_text\<close> reads the plain text of a clipboard.
\<close>

definition spec_written_text :: "jsstring option \<Rightarrow> jsstring" where
  "spec_written_text str = (case str of None \<Rightarrow> js ''<empty>'' | Some t \<Rightarrow> if t = [] then js ''<empty>'' else t)"

definition clipboard_text :: "clipboard \<Rightarrow> jsstring option" where
  "clipboard_text cb = map_of cb ''text/plain''"

section \<open>The tab formatter\<close>

lemma text_loop_drop:
  "text_loop tabs i s = s @ concat (map (\<lambda>t. url t @ [LF]) (drop i tabs))"
proof (induction tabs i s rule: text_loop.induct)
  case (1 tabs i s)
  show ?case
  proof (cases "i < length tabs")
    case True
    then have "drop i tabs = tabs ! i # drop (Suc i) tabs"
      by (simp add: Cons_nth_drop_Suc)
    with True "1" show ?thesis
      by (subst text_loop.simps) simp
  next
    case False
    then show ?thesis
      by (subst text_loop.simps) simp
  qed
qed

lemma CopyTo_text_concat:
  "CopyTo_text tabs = concat (map (\<lambda>t. url t @ [LF]) tabs)"
  by (simp add: CopyTo_text_def text_loop_drop)

text \<open>
  Claim C3. For every finite sequence of tab descriptors, \<^verbatim>\<open>CopyTo.text\<close> is the
  concatenation, in input order, of each tab's url followed by a newline, and the
  empty sequence gives the empty string. The result is a function of the tabs alone.
\<close>

theorem C3_CopyTo_text:
  "CopyTo_text tabs = concat (map (\<lambda>t. url t @ [LF]) tabs) \<and> CopyTo_text [] = []"
  by (simp add: CopyTo_text_def text_loop_drop)

section \<open>Loops, lines and trimming\<close>

lemma create_loop_drop:
  "create_loop urlList i effs = effs @ map TabsCreate (drop i urlList)"
proof (induction urlList i effs rule: create_loop.induct)
  case (1 urlList i effs)
  show ?case
  proof (cases "i < length urlList")
    case True
    then have "drop i urlList = urlList ! i # drop (Suc i) urlList"
      by (simp add: Cons_nth_drop_Suc)
    with True "1" show ?thesis
      by (subst create_loop.simps) simp
  next
    case False
    then show ?thesis
      by (subst create_loop.simps) simp
  qed
qed

lemma created_urls_append:
  "created_urls (xs @ ys) = created_urls xs @ created_urls ys"
  by (simp add: created_urls_def)

lemma created_urls_TabsCreate:
  "created_urls (map TabsCreate us) = us"
  by (induction us) (simp_all add: created_urls_def)

lemma created_urls_paste:
  "created_urls (map TabsCreate us @ [SendMessage n]) = us"
  by (simp add: created_urls_append created_urls_TabsCreate) (simp add: created_urls_def)

lemma trim_String_trim: "trim s = String_trim s"
  by (simp add: trim_def String_trim_def)

lemma href_value_nonempty: "href_value s = Some v \<Longrightarrow> v \<noteq> []"
  by (auto simp: href_value_def Let_def split: option.splits if_splits)

lemma anchor_rest_nonempty: "anchor_rest s = Some v \<Longrightarrow> v \<noteq> []"
  by (induction s) (auto split: if_splits option.splits dest: href_value_nonempty)

lemma anchor_at_nonempty: "anchor_at s = Some v \<Longrightarrow> v \<noteq> []"
  by (auto simp: anchor_at_def split: list.splits if_splits dest: anchor_rest_nonempty)

lemma anchor_search_nonempty: "anchor_search s = Some v \<Longrightarrow> v \<noteq> []"
  by (induction s) (auto split: option.splits dest: anchor_at_nonempty)

lemma unwrap_entry_eq:
  "i < length xs \<Longrightarrow> unwrap_entry xs i (xs ! i) = xs[i := unwrapped (xs ! i)]"
  by (auto simp: unwrap_entry_def unwrapped_def trim_String_trim Let_def
           split: option.splits dest: anchor_search_nonempty)

lemma unwrap_loop_eq:
  "unwrap_loop xs i = take i xs @ map unwrapped (drop i xs)"
proof (induction xs i rule: unwrap_loop.induct)
  case (1 xs i)
  show ?case
  proof (cases "i < length xs")
    case True
    have "unwrap_loop xs i = unwrap_loop (xs[i := unwrapped (xs ! i)]) (i + 1)"
      using True by (subst unwrap_loop.simps) (simp add: unwrap_entry_eq)
    also have "\<dots> = take (i + 1) (xs[i := unwrapped (xs ! i)])
                    @ map unwrapped (drop (i + 1) (xs[i := unwrapped (xs ! i)]))"
      using "1" True by (simp add: unwrap_entry_eq)
    also have "\<dots> = take i xs @ map unwrapped (drop i xs)"
      using True by (simp add: take_Suc_conv_app_nth Cons_nth_drop_Suc [symmetric])
    finally show ?thesis .
  next
    case False
    then show ?thesis
      by (subst unwrap_loop.simps) simp
  qed
qed

lemma unwrapped_Nil: "unwrapped [] = []"
  by (simp add: unwrapped_def anchor_at_def String_trim_def)

lemma split_from_append_LF:
  "LF \<notin> set a \<Longrightarrow> split_from cur (a @ LF # b) = (cur @ a) # split_from [] b"
  by (induction a arbitrary: cur) auto

lemma split_from_join:
  "concat (map (\<lambda>l. l @ [LF]) (split_from cur s)) = cur @ s @ [LF]"
  by (induction s arbitrary: cur) auto

lemma split_from_segments:
  "LF \<notin> set cur \<Longrightarrow> l \<in> set (split_from cur s) \<Longrightarrow> LF \<notin> set l"
proof (induction s arbitrary: cur)
  case Nil
  then show ?case by simp
next
  case (Cons c cs)
  show ?case
  proof (cases "c = LF")
    case True
    with Cons.prems have "l = cur \<or> l \<in> set (split_from [] cs)" by simp
    then show ?thesis
      using Cons.prems(1) Cons.IH [of "[]"] by auto
  next
    case False
    with Cons.prems have "l \<in> set (split_from (cur @ [c]) cs)" by simp
    then show ?thesis
      using Cons.prems(1) False Cons.IH [of "cur @ [c]"] by auto
  qed
qed

lemma split_lines_concat:
  "\<forall>u \<in> set us. LF \<notin> set u \<Longrightarrow>
   split_from [] (concat (map (\<lambda>u. u @ [LF]) us)) = us @ [[]]"
  by (induction us) (simp_all add: split_from_append_LF)

lemma split_from_substring:
  "l \<in> set (split_from cur s) \<Longrightarrow> \<exists>a b. cur @ s = a @ l @ b"
proof (induction s arbitrary: cur)
  case Nil
  then have "cur @ [] = [] @ l @ []" by simp
  then show ?case by blast
next
  case (Cons c cs)
  show ?case
  proof (cases "c = LF")
    case True
    with Cons.prems consider "l = cur" | "l \<in> set (split_from [] cs)" by auto
    then show ?thesis
    proof cases
      case 1
      then have "cur @ c # cs = [] @ l @ (c # cs)" by simp
      then show ?thesis by blast
    next
      case 2
      then obtain a b where "[] @ cs = a @ l @ b" using Cons.IH by blast
      then have "cur @ c # cs = (cur @ c # a) @ l @ b" by simp
      then show ?thesis by blast
    qed
  next
    case False
    with Cons.prems have "l \<in> set (split_from (cur @ [c]) cs)" by simp
    then obtain a b where "(cur @ [c]) @ cs = a @ l @ b" using Cons.IH by blast
    then have "cur @ c # cs = a @ l @ b" by simp
    then show ?thesis by blast
  qed
qed

lemma String_trim_id:
  "s \<noteq> [] \<Longrightarrow> \<not> is_space (hd s) \<Longrightarrow> \<not> is_space (last s) \<Longrightarrow> String_trim s = s"
proof -
  assume a: "s \<noteq> []" "\<not> is_space (hd s)" "\<not> is_space (last s)"
  then have "dropWhile is_space s = s" by (cases s) auto
  moreover have "dropWhile is_space (rev s) = rev s"
    using a by (cases "rev s") (auto simp: last_rev [symmetric] hd_rev)
  ultimately show ?thesis by (simp add: String_trim_def)
qed

section \<open>The anchor pattern\<close>

text \<open>A match inside a part of a string is a match inside the string.\<close>

lemma literal_ci_append:
  "literal_ci p s = Some r \<Longrightarrow> literal_ci p (s @ b) = Some (r @ b)"
  by (induction p s rule: literal_ci.induct) (auto split: if_splits)

lemma takeWhile_short_append:
  "length (takeWhile P r) < length r \<Longrightarrow> takeWhile P (r @ b) = takeWhile P r"
  by (induction r) auto

lemma href_value_append:
  "href_value s = Some v \<Longrightarrow> href_value (s @ b) = Some v"
  by (auto simp: href_value_def Let_def literal_ci_append takeWhile_short_append
           split: option.splits if_splits)

lemma href_value_Nil: "href_value [] = None"
  by (simp add: href_value_def js_def)

lemma anchor_rest_append:
  "anchor_rest s \<noteq> None \<Longrightarrow> anchor_rest (s @ b) \<noteq> None"
proof (induction s)
  case Nil
  then show ?case by (simp add: href_value_Nil)
next
  case (Cons c cs)
  show ?case
  proof (cases "c \<noteq> GT \<and> anchor_rest cs \<noteq> None")
    case True
    with Cons.IH have "anchor_rest (cs @ b) \<noteq> None" by simp
    with True show ?thesis by auto
  next
    case False
    with Cons.prems obtain v where "href_value (c # cs) = Some v"
      by (auto split: if_splits option.splits)
    then have "href_value ((c # cs) @ b) = Some v"
      by (rule href_value_append)
    then show ?thesis
      by (auto split: option.splits)
  qed
qed

lemma anchor_at_append:
  assumes "anchor_at s \<noteq> None"
  shows "anchor_at (s @ b) \<noteq> None"
proof -
  from assms obtain lt a c cs where s: "s = lt # a # c # cs"
    and guard: "lt = LT \<and> ci_eq (of_char CHR ''a'') a \<and> c \<noteq> GT"
    and rest: "anchor_rest cs \<noteq> None"
    by (auto simp: anchor_at_def split: list.splits if_splits)
  from rest have "anchor_rest (cs @ b) \<noteq> None"
    by (rule anchor_rest_append)
  with s guard show ?thesis
    by (simp add: anchor_at_def)
qed

lemma anchor_search_append:
  "anchor_search s \<noteq> None \<Longrightarrow> anchor_search (s @ b) \<noteq> None"
proof (induction s)
  case Nil
  then show ?case by (simp add: anchor_at_def)
next
  case (Cons c cs)
  show ?case
  proof (cases "anchor_at (c # cs)")
    case None
    with Cons have "anchor_search (cs @ b) \<noteq> None" by simp
    then show ?thesis by (auto split: option.splits)
  next
    case (Some v)
    then have "anchor_at ((c # cs) @ b) \<noteq> None"
      using anchor_at_append [of "c # cs" b] by simp
    then show ?thesis by (auto split: option.splits)
  qed
qed

lemma anchor_search_prepend:
  "anchor_search s \<noteq> None \<Longrightarrow> anchor_search (a @ s) \<noteq> None"
  by (induction a) (auto split: option.splits)

lemma anchor_search_substring:
  "anchor_search (a @ s @ b) = None \<Longrightarrow> anchor_search s = None"
  using anchor_search_append [of s b] anchor_search_prepend [of "s @ b" a] by blast

lemma no_anchor_segments:
  assumes "anchor_search s = None" and "l \<in> set (String_split s)"
  shows "anchor_search l = None"
proof -
  obtain a b where "s = a @ l @ b"
    using assms(2) split_from_substring [of l "[]" s] by (auto simp: String_split_def)
  with assms(1) show ?thesis
    using anchor_search_substring by blast
qed

lemma no_LT_anchor_at: "LT \<notin> set s \<Longrightarrow> anchor_at s = None"
  by (auto simp: anchor_at_def split: list.splits)

lemma no_LT_no_anchor: "LT \<notin> set s \<Longrightarrow> anchor_search s = None"
  by (induction s) (auto simp: no_LT_anchor_at split: option.splits)

section \<open>The URL pattern\<close>

subsection \<open>Canonical forms and the character class\<close>

lemma unat_canon:
  "unat (canon c) = (if 0x61 \<le> unat c \<and> unat c \<le> 0x7A then unat c - 0x20 else unat c)"
proof (cases "0x61 \<le> unat c \<and> unat c \<le> 0x7A")
  case True
  then have "(0x20 :: code_unit) \<le> c"
    by (simp add: word_le_nat_alt)
  then have "unat (c - 0x20) = unat c - unat (0x20 :: code_unit)"
    by (rule unat_sub)
  with True show ?thesis by (simp add: canon_def)
next
  case False
  then show ?thesis by (auto simp: canon_def)
qed

lemma ci_eq_unat: "ci_eq p c \<longleftrightarrow> unat (canon p) = unat (canon c)"
  by (simp add: ci_eq_def word_unat_eq_iff)

lemma unat_plus_32:
  fixes c :: code_unit
  assumes "unat c \<le> 0x5A"
  shows "unat (c + 0x20) = unat c + 0x20"
proof -
  have "unat c + unat (0x20 :: code_unit) < 2 ^ LENGTH(16)"
    using assms by simp
  then have "unat (c + 0x20) = unat c + unat (0x20 :: code_unit)"
    by (rule unat_add_lem [THEN iffD1])
  then show ?thesis by simp
qed

lemma url_class_unat:
  "url_class c \<longleftrightarrow>
     (0x61 \<le> unat c \<and> unat c \<le> 0x7A) \<or> (0x30 \<le> unat c \<and> unat c \<le> 0x39)
     \<or> unat c \<in> {0x2F, 0x3A, 0x25, 0x5F, 0x2B, 0x2E, 0x2C, 0x23, 0x3F, 0x21, 0x40, 0x26, 0x3D, 0x2D}"
  by (simp add: url_class_def js_def word_unat_eq_iff)

lemma url_char_unat:
  "url_char c \<longleftrightarrow>
     (0x61 \<le> unat c \<and> unat c \<le> 0x7A) \<or> (0x41 \<le> unat c \<and> unat c \<le> 0x5A)
     \<or> (0x30 \<le> unat c \<and> unat c \<le> 0x39)
     \<or> unat c \<in> {0x2F, 0x3A, 0x25, 0x5F, 0x2B, 0x2E, 0x2C, 0x23, 0x3F, 0x21, 0x40, 0x26, 0x3D, 0x2D}"
proof (cases "0x41 \<le> unat c \<and> unat c \<le> 0x5A")
  case True
  then have "unat (c + 0x20) = unat c + 0x20" by (simp add: unat_plus_32)
  with True show ?thesis
    by (simp add: url_char_def url_class_unat)
next
  case False
  then show ?thesis
    by (auto simp: url_char_def url_class_unat)
qed

text \<open>\<open>url_char\<close> is the class as the flag \<^verbatim>\<open>i\<close> reads it.\<close>

lemma url_char_iff: "url_char c \<longleftrightarrow> (\<exists>a. url_class a \<and> ci_eq a c)"
proof
  assume c: "url_char c"
  show "\<exists>a. url_class a \<and> ci_eq a c"
  proof (cases "url_class c")
    case True
    then show ?thesis by (auto simp: ci_eq_def)
  next
    case False
    with c have u: "0x41 \<le> unat c \<and> unat c \<le> 0x5A" and cl: "url_class (c + 0x20)"
      by (auto simp: url_char_def)
    from u have "unat (c + 0x20) = unat c + 0x20" by (simp add: unat_plus_32)
    with u have "ci_eq (c + 0x20) c"
      by (simp add: ci_eq_unat unat_canon)
    with cl show ?thesis by blast
  qed
next
  assume "\<exists>a. url_class a \<and> ci_eq a c"
  then obtain a where a: "url_class a" and eq: "unat (canon a) = unat (canon c)"
    by (auto simp: ci_eq_unat)
  show "url_char c"
  proof (cases "0x61 \<le> unat c \<and> unat c \<le> 0x7A")
    case True
    then show ?thesis by (simp add: url_char_unat)
  next
    case c: False
    then have cc: "unat (canon c) = unat c" by (auto simp: unat_canon)
    show ?thesis
    proof (cases "0x61 \<le> unat a \<and> unat a \<le> 0x7A")
      case True
      with eq cc have "0x41 \<le> unat c \<and> unat c \<le> 0x5A"
        by (simp add: unat_canon) arith
      then show ?thesis by (simp add: url_char_unat)
    next
      case False
      with eq cc have "unat a = unat c" by (auto simp: unat_canon)
      then have "a = c" by (simp add: word_unat_eq_iff)
      with a show ?thesis by (simp add: url_char_def)
    qed
  qed
qed

lemma url_char_range:
  "url_char c \<Longrightarrow> 0x21 \<le> unat c \<and> unat c \<le> 0x7A \<and> unat c \<noteq> 0x3C"
  by (auto simp: url_char_unat)

lemma url_char_not_space: "url_char c \<Longrightarrow> \<not> is_space c"
proof
  assume "url_char c" and sp: "is_space c"
  then have "0x21 \<le> unat c \<and> unat c \<le> 0x7A" by (simp add: url_char_range)
  with sp show False by (auto simp: is_space_def)
qed

lemma url_char_not_LT: "url_char c \<Longrightarrow> c \<noteq> LT"
proof
  assume "url_char c" and "c = LT"
  then show False using url_char_range [of c] by (simp add: LT_def)
qed

lemma literal_ci_iff:
  "literal_ci p s = Some r \<longleftrightarrow> (\<exists>pre. s = pre @ r \<and> list_all2 ci_eq p pre)"
proof (induction p s rule: literal_ci.induct)
  case (1 s)
  then show ?case by auto
next
  case (2 p ps)
  then show ?case by (auto simp: list_all2_Cons1)
next
  case (3 p ps c cs)
  then show ?case by (auto simp: list_all2_Cons1)
qed

lemma ci_eq_nonletter:
  assumes "\<not> (0x41 \<le> unat p \<and> unat p \<le> 0x5A)" "\<not> (0x61 \<le> unat p \<and> unat p \<le> 0x7A)"
  shows "ci_eq p c \<longleftrightarrow> c = p"
proof
  assume "ci_eq p c"
  then have "unat p = unat c"
    using assms by (auto simp: ci_eq_unat unat_canon split: if_splits)
  then show "c = p" by (simp add: word_unat_eq_iff)
next
  assume "c = p"
  then show "ci_eq p c" by (simp add: ci_eq_def)
qed

lemma sep_literal:
  "list_all2 ci_eq (js ''://'') pre \<longleftrightarrow> pre = js ''://''"
  by (auto simp: js_def list_all2_Cons1 ci_eq_nonletter)

lemma scheme_chars:
  assumes "p \<in> set scheme_names" and "list_all2 ci_eq (js p) pre" and "c \<in> set pre"
  shows "url_char c"
proof -
  from assms(3) obtain i where i: "i < length pre" "c = pre ! i"
    by (auto simp: in_set_conv_nth)
  with assms(2) have "js p ! i \<in> set (js p)" and "ci_eq (js p ! i) c"
    by (auto simp: list_all2_conv_all_nth)
  then obtain a where a: "a \<in> set (js p)" and eq: "ci_eq a c" by blast
  from assms(1) a have "url_class a"
    by (auto simp: scheme_names_def js_def url_class_unat)
  with eq show ?thesis by (auto simp: url_char_iff)
qed

lemma scheme_letter:
  assumes "p \<in> set scheme_names" and "list_all2 ci_eq (js p) pre" and "i < length pre"
  shows "pre ! i \<noteq> 0x3A"
proof
  assume colon: "pre ! i = 0x3A"
  from assms(2,3) have "js p ! i \<in> set (js p)" and eq: "ci_eq (js p ! i) (pre ! i)"
    by (auto simp: list_all2_conv_all_nth)
  with assms(1) have "0x61 \<le> unat (js p ! i) \<and> unat (js p ! i) \<le> 0x7A"
    by (auto simp: scheme_names_def js_def)
  with eq colon have "unat (js p ! i) - 0x20 = 0x3A \<and> 0x61 \<le> unat (js p ! i)"
    by (simp add: ci_eq_unat unat_canon)
  then show False by arith
qed

subsection \<open>The matcher at one position\<close>

lemma url_tail_Some:
  assumes "url_tail s = Some n"
  shows "\<exists>body. take n s = js ''://'' @ body \<and> n = 3 + length body \<and> n \<le> length s
           \<and> body \<noteq> [] \<and> (\<forall>c \<in> set body. url_char c)
           \<and> (drop n s = [] \<or> \<not> url_char (hd (drop n s)))"
proof -
  from assms obtain r where r: "literal_ci (js ''://'') s = Some r"
    and n: "n = 3 + length (takeWhile url_char r)" and pos: "takeWhile url_char r \<noteq> []"
    by (auto simp: url_tail_def Let_def split: option.splits if_splits)
  from r have s: "s = js ''://'' @ r"
    by (auto simp: literal_ci_iff sep_literal)
  let ?body = "takeWhile url_char r"
  have len: "length (js ''://'') = 3" by (simp add: js_def)
  have "take n s = js ''://'' @ ?body"
    using s n len by (simp add: takeWhile_eq_take [symmetric])
  moreover have "drop n s = dropWhile url_char r"
    using s n len by (simp add: dropWhile_eq_drop [symmetric])
  moreover have "dropWhile url_char r = [] \<or> \<not> url_char (hd (dropWhile url_char r))"
    using hd_dropWhile [of url_char r] by blast
  moreover have "n \<le> length s"
    using s n len length_takeWhile_le [of url_char r] by simp
  moreover have "\<forall>c \<in> set ?body. url_char c"
    by (auto dest: set_takeWhileD)
  ultimately show ?thesis using n pos by auto
qed

lemma url_tail_None:
  assumes "url_tail s = None"
  shows "\<not> (\<exists>body r. s = js ''://'' @ body @ r \<and> body \<noteq> [] \<and> (\<forall>c \<in> set body. url_char c))"
proof
  assume "\<exists>body r. s = js ''://'' @ body @ r \<and> body \<noteq> [] \<and> (\<forall>c \<in> set body. url_char c)"
  then obtain body r where s: "s = js ''://'' @ body @ r" and b: "body \<noteq> []"
    and u: "\<forall>c \<in> set body. url_char c" by blast
  have "literal_ci (js ''://'') s = Some (body @ r)"
    using s by (auto simp: literal_ci_iff sep_literal)
  moreover have "takeWhile url_char (body @ r) = body @ takeWhile url_char r"
    using u by (simp add: takeWhile_append2)
  ultimately have "url_tail s \<noteq> None"
    using b by (simp add: url_tail_def Let_def)
  with assms show False by simp
qed

lemma try_schemes_Some:
  assumes "try_schemes ps s = Some n"
  shows "\<exists>p \<in> set ps. \<exists>pre body.
           take n s = pre @ js ''://'' @ body \<and> list_all2 ci_eq (js p) pre
           \<and> body \<noteq> [] \<and> (\<forall>c \<in> set body. url_char c)
           \<and> n \<le> length s \<and> (drop n s = [] \<or> \<not> url_char (hd (drop n s)))"
  using assms
proof (induction ps)
  case Nil
  then show ?case by simp
next
  case (Cons p ps)
  show ?case
  proof (cases "case literal_ci (js p) s of None \<Rightarrow> None | Some r \<Rightarrow> url_tail r")
    case None
    with Cons.prems have "try_schemes ps s = Some n" by simp
    with Cons.IH show ?thesis by auto
  next
    case (Some k)
    then obtain r where r: "literal_ci (js p) s = Some r" and k: "url_tail r = Some k"
      by (auto split: option.splits)
    from Some Cons.prems have n: "n = length p + k" by simp
    from r obtain pre where s: "s = pre @ r" and pre: "list_all2 ci_eq (js p) pre"
      by (auto simp: literal_ci_iff)
    from pre have lp: "length pre = length p"
      by (auto dest: list_all2_lengthD simp: js_def)
    from url_tail_Some [OF k] obtain body where
      b: "take k r = js ''://'' @ body" "k \<le> length r" "body \<noteq> []"
         "\<forall>c \<in> set body. url_char c" "drop k r = [] \<or> \<not> url_char (hd (drop k r))"
      by blast
    have "take n s = pre @ js ''://'' @ body"
      using s n lp b(1) by simp
    moreover have "drop n s = drop k r"
      using s n lp by simp
    moreover have "n \<le> length s"
      using s n lp b(2) by simp
    ultimately show ?thesis
      using pre b by auto
  qed
qed

lemma try_schemes_None:
  assumes "try_schemes ps s = None" and "p \<in> set ps"
  shows "\<not> (\<exists>pre body r. s = pre @ js ''://'' @ body @ r \<and> list_all2 ci_eq (js p) pre
               \<and> body \<noteq> [] \<and> (\<forall>c \<in> set body. url_char c))"
  using assms
proof (induction ps)
  case Nil
  then show ?case by simp
next
  case (Cons q qs)
  from Cons.prems(1) have here: "(case literal_ci (js q) s of None \<Rightarrow> None | Some r \<Rightarrow> url_tail r) = None"
    and rest: "try_schemes qs s = None"
    by (auto split: option.splits)
  show ?case
  proof (cases "p = q")
    case True
    show ?thesis
    proof
      assume "\<exists>pre body r. s = pre @ js ''://'' @ body @ r \<and> list_all2 ci_eq (js p) pre
               \<and> body \<noteq> [] \<and> (\<forall>c \<in> set body. url_char c)"
      then obtain pre body r where s: "s = pre @ js ''://'' @ body @ r"
        and pre: "list_all2 ci_eq (js p) pre" and b: "body \<noteq> []" "\<forall>c \<in> set body. url_char c"
        by blast
      from s pre have "literal_ci (js q) s = Some (js ''://'' @ body @ r)"
        using True by (auto simp: literal_ci_iff)
      with here have "url_tail (js ''://'' @ body @ r) = None" by simp
      with b show False using url_tail_None by blast
    qed
  next
    case False
    with Cons.prems(2) have "p \<in> set qs" by simp
    with Cons.IH rest show ?thesis by blast
  qed
qed

lemma url_at_Some:
  assumes "url_at s = Some n"
  shows "spec_url_pattern (take n s) \<and> 0 < n \<and> n \<le> length s
         \<and> (drop n s = [] \<or> \<not> url_char (hd (drop n s)))"
proof -
  from try_schemes_Some [OF assms [unfolded url_at_def]] obtain p pre body where
    p: "p \<in> set [''https'', ''http'', ''ftp'', ''ssh'', ''mailto'']"
    and t: "take n s = pre @ js ''://'' @ body" "list_all2 ci_eq (js p) pre"
           "body \<noteq> []" "\<forall>c \<in> set body. url_char c"
           "n \<le> length s" "drop n s = [] \<or> \<not> url_char (hd (drop n s))"
    by blast
  from p have "p \<in> set scheme_names" by (auto simp: scheme_names_def)
  with t have "spec_url_pattern (take n s)" unfolding spec_url_pattern_def by blast
  moreover have "0 < n" using t(1,3) by (cases n) auto
  ultimately show ?thesis using t by simp
qed

lemma url_at_None:
  assumes "url_at s = None"
  shows "\<not> spec_match_begins s"
proof
  assume "spec_match_begins s"
  then obtain m r p pre body where s: "s = m @ r" and p: "p \<in> set scheme_names"
    and m: "m = pre @ js ''://'' @ body" "list_all2 ci_eq (js p) pre"
           "body \<noteq> []" "\<forall>c \<in> set body. url_char c"
    unfolding spec_match_begins_def spec_url_pattern_def by blast
  from p have "p \<in> set [''https'', ''http'', ''ftp'', ''ssh'', ''mailto'']"
    by (auto simp: scheme_names_def)
  moreover have "s = pre @ js ''://'' @ body @ r" using s m(1) by simp
  ultimately show False
    using try_schemes_None [OF assms [unfolded url_at_def]] m by blast
qed

lemma url_at_begins: "url_at s = Some n \<Longrightarrow> spec_match_begins s"
proof -
  assume "url_at s = Some n"
  then have "spec_url_pattern (take n s)" by (simp add: url_at_Some)
  moreover have "s = take n s @ drop n s" by simp
  ultimately show ?thesis unfolding spec_match_begins_def by blast
qed

lemma spec_url_pattern_chars:
  assumes "spec_url_pattern m"
  shows "m \<noteq> [] \<and> (\<forall>c \<in> set m. url_char c)"
proof -
  from assms obtain p pre body where p: "p \<in> set scheme_names"
    and m: "m = pre @ js ''://'' @ body" and pre: "list_all2 ci_eq (js p) pre"
    and b: "body \<noteq> []" "\<forall>c \<in> set body. url_char c"
    unfolding spec_url_pattern_def by blast
  have "\<forall>c \<in> set (js ''://''). url_char c"
    by (simp add: js_def url_char_unat)
  moreover have "\<forall>c \<in> set pre. url_char c"
    using p pre by (blast intro: scheme_chars)
  ultimately show ?thesis using m b by auto
qed

lemma takeWhile_unique:
  assumes "xs = a @ b" and "\<forall>c \<in> set a. P c" and "b = [] \<or> \<not> P (hd b)"
  shows "takeWhile P xs = a"
proof (cases b)
  case Nil
  with assms show ?thesis by simp
next
  case (Cons y ys)
  with assms have "\<not> P y" by simp
  with assms(1,2) Cons show ?thesis
    by (simp add: takeWhile_append2)
qed

lemma pattern_prefix_length:
  assumes p: "p \<in> set scheme_names" "list_all2 ci_eq (js p) pre"
    and q: "q \<in> set scheme_names" "list_all2 ci_eq (js q) pre'"
    and s: "pre @ js ''://'' @ x = pre' @ js ''://'' @ y"
  shows "\<not> length pre < length pre'"
proof
  assume less: "length pre < length pre'"
  have "(pre @ js ''://'' @ x) ! length pre = 0x3A"
    by (simp add: nth_append js_def)
  moreover have "(pre' @ js ''://'' @ y) ! length pre = pre' ! length pre"
    using less by (simp add: nth_append)
  ultimately have "pre' ! length pre = 0x3A" using s by simp
  with scheme_letter [OF q less] show False by simp
qed

lemma url_at_pattern:
  assumes m: "spec_url_pattern m" and mx: "r = [] \<or> \<not> url_char (hd r)"
  shows "url_at (m @ r) = Some (length m)"
proof -
  from m obtain p pre body where p: "p \<in> set scheme_names" "list_all2 ci_eq (js p) pre"
    and md: "m = pre @ js ''://'' @ body" and b: "body \<noteq> []" "\<forall>c \<in> set body. url_char c"
    unfolding spec_url_pattern_def by blast
  have "spec_match_begins (m @ r)"
    using m unfolding spec_match_begins_def by blast
  then obtain n where n: "url_at (m @ r) = Some n"
    using url_at_None [of "m @ r"] by (cases "url_at (m @ r)") auto
  from try_schemes_Some [OF n [unfolded url_at_def]] obtain q pre' body' where
    q0: "q \<in> set [''https'', ''http'', ''ftp'', ''ssh'', ''mailto'']"
    and t: "take n (m @ r) = pre' @ js ''://'' @ body'" "list_all2 ci_eq (js q) pre'"
           "\<forall>c \<in> set body'. url_char c" "n \<le> length (m @ r)"
           "drop n (m @ r) = [] \<or> \<not> url_char (hd (drop n (m @ r)))"
    by blast
  from q0 have q: "q \<in> set scheme_names" by (auto simp: scheme_names_def)
  define d where "d = drop n (m @ r)"
  have dmax: "d = [] \<or> \<not> url_char (hd d)"
    using t(5) by (simp only: d_def)
  have "m @ r = take n (m @ r) @ d"
    by (simp only: d_def append_take_drop_id)
  then have split: "m @ r = (pre' @ js ''://'' @ body') @ d"
    by (simp only: t(1))
  have "length (take n (m @ r)) = n"
    using t(4) by simp
  then have n_len: "n = length (pre' @ js ''://'' @ body')"
    by (simp only: t(1))
  have whole: "pre @ js ''://'' @ (body @ r) = pre' @ js ''://'' @ (body' @ d)"
    using split md by simp
  have "length pre = length pre'"
    using pattern_prefix_length [OF p q t(2) whole]
          pattern_prefix_length [OF q t(2) p whole [symmetric]]
    by simp
  with whole have same: "body @ r = body' @ d" by simp
  have "takeWhile url_char (body @ r) = body"
    using b mx by (intro takeWhile_unique [of _ body r]) auto
  moreover have "takeWhile url_char (body' @ d) = body'"
    using t(3) dmax by (intro takeWhile_unique [of _ body' d]) auto
  ultimately have "body = body'" using same by simp
  with \<open>length pre = length pre'\<close> n_len md have "n = length m" by simp
  with n show ?thesis by simp
qed

subsection \<open>The scan\<close>

lemma spec_url_matches_skip:
  assumes "\<not> spec_match_begins (c # cs)" and "spec_url_matches cs ms"
  shows "spec_url_matches (c # cs) ms"
  using assms(2)
proof (cases rule: spec_url_matches.cases)
  case no_more
  have "\<not> spec_match_begins (drop i (c # cs))" if "i < length (c # cs)" for i
    using that assms(1) no_more(2) by (cases i) auto
  with no_more(1) show ?thesis
    by (auto intro: spec_url_matches.no_more)
next
  case (next_match g m r ms')
  have "\<not> spec_match_begins (drop i (c # cs))" if "i < length (c # g)" for i
    using that assms(1) next_match by (cases i) auto
  moreover have "c # cs = (c # g) @ m @ r" using next_match(2) by simp
  ultimately show ?thesis
    using next_match spec_url_matches.next_match [of "c # cs" "c # g" m r ms'] by blast
qed

lemma url_scan_matches: "spec_url_matches s (url_scan s)"
proof (induction s rule: url_scan.induct)
  case 1
  show ?case by (auto intro: spec_url_matches.no_more)
next
  case (2 c cs)
  show ?case
  proof (cases "url_at (c # cs)")
    case None
    with 2 have "spec_url_matches cs (url_scan cs)" by simp
    with None show ?thesis
      by (simp add: spec_url_matches_skip url_at_None)
  next
    case (Some n)
    from url_at_Some [OF Some] have n: "spec_url_pattern (take n (c # cs))" "0 < n"
      "drop n (c # cs) = [] \<or> \<not> url_char (hd (drop n (c # cs)))" by auto
    from n(2) have mx: "max n 1 = n" by simp
    from 2(2) [OF Some] mx have "spec_url_matches (drop n (c # cs)) (url_scan (drop n (c # cs)))"
      by simp
    moreover have "c # cs = [] @ take n (c # cs) @ drop n (c # cs)" by simp
    ultimately have "spec_url_matches (c # cs) (take n (c # cs) # url_scan (drop n (c # cs)))"
      using n spec_url_matches.next_match [of "c # cs" "[]" "take n (c # cs)" "drop n (c # cs)"]
      by simp
    with Some mx show ?thesis by simp
  qed
qed

lemma spec_url_matches_pattern:
  "spec_url_matches s ms \<Longrightarrow> m \<in> set ms \<Longrightarrow> spec_url_pattern m"
  by (induction rule: spec_url_matches.induct) auto

lemma url_scan_none:
  "(\<And>i. i < length s \<Longrightarrow> \<not> spec_match_begins (drop i s)) \<Longrightarrow> url_scan s = []"
proof (induction s)
  case Nil
  show ?case by simp
next
  case (Cons c cs)
  from Cons.prems [of 0] have "url_at (c # cs) = None"
    using url_at_begins [of "c # cs"] by (cases "url_at (c # cs)") auto
  moreover have "url_scan cs = []"
  proof (rule Cons.IH)
    fix i assume "i < length cs"
    then show "\<not> spec_match_begins (drop i cs)"
      using Cons.prems [of "Suc i"] by simp
  qed
  ultimately show ?case by simp
qed

lemma url_scan_next:
  assumes "\<And>i. i < length g \<Longrightarrow> \<not> spec_match_begins (drop i (g @ m @ r))"
    and "spec_url_pattern m" and "r = [] \<or> \<not> url_char (hd r)"
  shows "url_scan (g @ m @ r) = m # url_scan r"
  using assms(1)
proof (induction g)
  case Nil
  from assms(2) have ne: "m \<noteq> []" by (simp add: spec_url_pattern_chars)
  then obtain c cs where cs: "m @ r = c # cs" by (cases m) auto
  have at: "url_at (c # cs) = Some (length m)"
    using url_at_pattern [OF assms(2,3)] cs by simp
  have "max (length m) 1 = length m" using ne by (cases m) auto
  then have "url_scan (c # cs) = take (length m) (c # cs) # url_scan (drop (length m) (c # cs))"
    using at by simp
  then show ?case using cs [symmetric] by simp
next
  case (Cons x g)
  from Cons.prems [of 0] have "url_at (x # g @ m @ r) = None"
    using url_at_begins [of "x # g @ m @ r"] by (cases "url_at (x # g @ m @ r)") auto
  moreover have "url_scan (g @ m @ r) = m # url_scan r"
  proof (rule Cons.IH)
    fix i assume "i < length g"
    then show "\<not> spec_match_begins (drop i (g @ m @ r))"
      using Cons.prems [of "Suc i"] by simp
  qed
  ultimately show ?case by simp
qed

lemma spec_url_matches_unique: "spec_url_matches s ms \<Longrightarrow> url_scan s = ms"
proof (induction rule: spec_url_matches.induct)
  case (no_more s)
  then show ?case by (simp add: url_scan_none)
next
  case (next_match s g m r ms)
  then show ?case by (simp add: url_scan_next)
qed

section \<open>The anchor pattern and the trimming against their specification\<close>

text \<open>
  The matcher finds an anchor at a place exactly when the specification has one there,
  prefers the longest part before \<^verbatim>\<open>href\<close>, and the search returns the leftmost.
\<close>

lemma takeWhile_stop:
  assumes "length (takeWhile P r) < length r"
  shows "\<exists>rest. r = takeWhile P r @ hd (dropWhile P r) # rest \<and> \<not> P (hd (dropWhile P r))"
proof -
  have "length (takeWhile P r) + length (dropWhile P r) = length r"
    by (metis length_append takeWhile_dropWhile_id)
  with assms have "0 < length (dropWhile P r)" by arith
  then have ne: "dropWhile P r \<noteq> []" by (rule length_greater_0_conv [THEN iffD1])
  then have "dropWhile P r = hd (dropWhile P r) # tl (dropWhile P r)"
    by simp
  then have "r = takeWhile P r @ hd (dropWhile P r) # tl (dropWhile P r)"
    by (metis takeWhile_dropWhile_id)
  moreover have "\<not> P (hd (dropWhile P r))"
    using ne by (rule hd_dropWhile)
  ultimately show ?thesis by blast
qed

lemma href_value_iff:
  "href_value s = Some u \<longleftrightarrow>
     (\<exists>h rest. s = h @ u @ QUOTE # rest \<and> list_all2 ci_eq (js ''href='' @ [QUOTE]) h
        \<and> u \<noteq> [] \<and> QUOTE \<notin> set u)"
proof
  assume "href_value s = Some u"
  then obtain r where r: "literal_ci (js ''href='' @ [QUOTE]) s = Some r"
    and u: "u = takeWhile (\<lambda>c. c \<noteq> QUOTE) r" and ne: "u \<noteq> []"
    and short: "length (takeWhile (\<lambda>c. c \<noteq> QUOTE) r) < length r"
    by (auto simp: href_value_def Let_def split: option.splits if_splits)
  from r obtain h where h: "s = h @ r" "list_all2 ci_eq (js ''href='' @ [QUOTE]) h"
    by (auto simp: literal_ci_iff)
  from takeWhile_stop [OF short] obtain rest where
    "r = takeWhile (\<lambda>c. c \<noteq> QUOTE) r @ hd (dropWhile (\<lambda>c. c \<noteq> QUOTE) r) # rest"
    and "\<not> hd (dropWhile (\<lambda>c. c \<noteq> QUOTE) r) \<noteq> QUOTE"
    by blast
  then have "r = u @ QUOTE # rest" using u by simp
  moreover have "QUOTE \<notin> set u"
    using u by (auto dest: set_takeWhileD)
  ultimately show "\<exists>h rest. s = h @ u @ QUOTE # rest
      \<and> list_all2 ci_eq (js ''href='' @ [QUOTE]) h \<and> u \<noteq> [] \<and> QUOTE \<notin> set u"
    using h ne by blast
next
  assume "\<exists>h rest. s = h @ u @ QUOTE # rest
      \<and> list_all2 ci_eq (js ''href='' @ [QUOTE]) h \<and> u \<noteq> [] \<and> QUOTE \<notin> set u"
  then obtain h rest where s: "s = h @ u @ QUOTE # rest"
    and h: "list_all2 ci_eq (js ''href='' @ [QUOTE]) h" and u: "u \<noteq> []" "QUOTE \<notin> set u"
    by blast
  have "literal_ci (js ''href='' @ [QUOTE]) s = Some (u @ QUOTE # rest)"
    using s h by (auto simp: literal_ci_iff)
  moreover have "takeWhile (\<lambda>c. c \<noteq> QUOTE) (u @ QUOTE # rest) = u"
    using u(2) by (induction u) auto
  ultimately show "href_value s = Some u"
    using u(1) by (simp add: href_value_def Let_def)
qed

lemma anchor_rest_None:
  "anchor_rest cs = None \<Longrightarrow> k \<le> length cs \<Longrightarrow> GT \<notin> set (take k cs) \<Longrightarrow>
   href_value (drop k cs) = None"
proof (induction cs arbitrary: k)
  case Nil
  then show ?case by simp
next
  case (Cons c cs)
  from Cons.prems(1) have here: "href_value (c # cs) = None"
    by (auto split: if_splits option.splits)
  show ?case
  proof (cases k)
    case 0
    with here show ?thesis by simp
  next
    case (Suc j)
    with Cons.prems(3) have c: "c \<noteq> GT" and g: "GT \<notin> set (take j cs)" by auto
    from c Cons.prems(1) have "anchor_rest cs = None"
      by (auto split: option.splits)
    with Cons.IH [of j] g Cons.prems(2) Suc show ?thesis by simp
  qed
qed

lemma anchor_rest_Some:
  "anchor_rest cs = Some v \<Longrightarrow>
   \<exists>k \<le> length cs. GT \<notin> set (take k cs) \<and> href_value (drop k cs) = Some v
     \<and> (\<forall>k' u'. k' \<le> length cs \<longrightarrow> GT \<notin> set (take k' cs) \<longrightarrow>
            href_value (drop k' cs) = Some u' \<longrightarrow> k' \<le> k)"
proof (induction cs arbitrary: v)
  case Nil
  then show ?case by simp
next
  case (Cons c cs)
  show ?case
  proof (cases "c \<noteq> GT \<and> anchor_rest cs \<noteq> None")
    case True
    with Cons.prems have deep: "anchor_rest cs = Some v"
      by (auto split: option.splits)
    from Cons.IH [OF deep] obtain k where k: "k \<le> length cs" "GT \<notin> set (take k cs)"
      "href_value (drop k cs) = Some v"
      and mx: "\<And>k' u'. k' \<le> length cs \<Longrightarrow> GT \<notin> set (take k' cs) \<Longrightarrow>
                 href_value (drop k' cs) = Some u' \<Longrightarrow> k' \<le> k"
      by blast
    have "k' \<le> Suc k" if "k' \<le> length (c # cs)" "GT \<notin> set (take k' (c # cs))"
      "href_value (drop k' (c # cs)) = Some u'" for k' u'
    proof (cases k')
      case 0
      then show ?thesis by simp
    next
      case (Suc j)
      with that mx [of j u'] show ?thesis by auto
    qed
    moreover have "Suc k \<le> length (c # cs)" "GT \<notin> set (take (Suc k) (c # cs))"
      "href_value (drop (Suc k) (c # cs)) = Some v"
      using k True by auto
    ultimately show ?thesis by blast
  next
    case False
    with Cons.prems have here: "href_value (c # cs) = Some v"
      by (auto split: if_splits option.splits)
    have "k' \<le> 0" if "k' \<le> length (c # cs)" "GT \<notin> set (take k' (c # cs))"
      "href_value (drop k' (c # cs)) = Some u'" for k' u'
    proof (cases k')
      case 0
      then show ?thesis by simp
    next
      case (Suc j)
      with that have c: "c \<noteq> GT" and j: "j \<le> length cs" "GT \<notin> set (take j cs)"
        "href_value (drop j cs) = Some u'" by auto
      from c False have "anchor_rest cs = None" by simp
      from anchor_rest_None [OF this j(1,2)] j(3) show ?thesis by simp
    qed
    moreover have "0 \<le> length (c # cs)" "GT \<notin> set (take 0 (c # cs))"
      "href_value (drop 0 (c # cs)) = Some v"
      using here by auto
    ultimately show ?thesis by blast
  qed
qed

lemma spec_anchor_at_iff:
  "spec_anchor_at s mid u \<longleftrightarrow>
     (\<exists>a c cs k. s = LT # a # c # cs \<and> ci_eq (of_char CHR ''a'') a \<and> c \<noteq> GT
        \<and> k \<le> length cs \<and> mid = c # take k cs \<and> GT \<notin> set (take k cs)
        \<and> href_value (drop k cs) = Some u)"
proof
  assume "spec_anchor_at s mid u"
  then obtain a h rest where s: "s = LT # a # mid @ h @ u @ QUOTE # rest"
    and a: "ci_eq (of_char CHR ''a'') a" and mid: "mid \<noteq> []" "GT \<notin> set mid"
    and h: "list_all2 ci_eq (js ''href='' @ [QUOTE]) h" and u: "u \<noteq> []" "QUOTE \<notin> set u"
    unfolding spec_anchor_at_def by blast
  from mid(1) obtain c m where m: "mid = c # m" by (cases mid) auto
  let ?cs = "m @ h @ u @ QUOTE # rest"
  have "href_value (drop (length m) ?cs) = Some u"
    using h u by (auto simp: href_value_iff)
  moreover have "s = LT # a # c # ?cs" using s m by simp
  moreover have "mid = c # take (length m) ?cs" using m by simp
  moreover have "GT \<notin> set (take (length m) ?cs)" "c \<noteq> GT" using mid(2) m by auto
  moreover have "length m \<le> length ?cs" by simp
  ultimately show "\<exists>a c cs k. s = LT # a # c # cs \<and> ci_eq (of_char CHR ''a'') a \<and> c \<noteq> GT
        \<and> k \<le> length cs \<and> mid = c # take k cs \<and> GT \<notin> set (take k cs)
        \<and> href_value (drop k cs) = Some u"
    using a by blast
next
  assume "\<exists>a c cs k. s = LT # a # c # cs \<and> ci_eq (of_char CHR ''a'') a \<and> c \<noteq> GT
        \<and> k \<le> length cs \<and> mid = c # take k cs \<and> GT \<notin> set (take k cs)
        \<and> href_value (drop k cs) = Some u"
  then obtain a c cs k where s: "s = LT # a # c # cs" and a: "ci_eq (of_char CHR ''a'') a"
    and c: "c \<noteq> GT" and mid: "mid = c # take k cs" and g: "GT \<notin> set (take k cs)"
    and hv: "href_value (drop k cs) = Some u"
    by blast
  from hv obtain h rest where d: "drop k cs = h @ u @ QUOTE # rest"
    and h: "list_all2 ci_eq (js ''href='' @ [QUOTE]) h" and u: "u \<noteq> []" "QUOTE \<notin> set u"
    by (auto simp: href_value_iff)
  have "cs = take k cs @ drop k cs" by simp
  then have "s = LT # a # mid @ h @ u @ QUOTE # rest"
    using s mid d by simp
  then show "spec_anchor_at s mid u"
    unfolding spec_anchor_at_def using a c mid g h u by auto
qed

lemma anchor_at_None: "anchor_at s = None \<Longrightarrow> spec_anchor_absent s"
  unfolding spec_anchor_absent_def
proof (intro allI notI)
  fix mid u
  assume none: "anchor_at s = None" and "spec_anchor_at s mid u"
  then obtain a c cs k where s: "s = LT # a # c # cs" and g: "ci_eq (of_char CHR ''a'') a" "c \<noteq> GT"
    and k: "k \<le> length cs" "GT \<notin> set (take k cs)" "href_value (drop k cs) = Some u"
    by (auto simp: spec_anchor_at_iff)
  from none s g have "anchor_rest cs = None"
    by (simp add: anchor_at_def)
  from anchor_rest_None [OF this k(1,2)] k(3) show False by simp
qed

lemma anchor_at_Some: "anchor_at s = Some u \<Longrightarrow> spec_anchor_here s u"
proof -
  assume some: "anchor_at s = Some u"
  then obtain lt a c cs where s: "s = lt # a # c # cs"
    and g: "lt = LT" "ci_eq (of_char CHR ''a'') a" "c \<noteq> GT" and r: "anchor_rest cs = Some u"
    by (auto simp: anchor_at_def split: list.splits if_splits)
  from anchor_rest_Some [OF r] obtain k where k: "k \<le> length cs" "GT \<notin> set (take k cs)"
    "href_value (drop k cs) = Some u"
    and mx: "\<And>k' u'. k' \<le> length cs \<Longrightarrow> GT \<notin> set (take k' cs) \<Longrightarrow>
               href_value (drop k' cs) = Some u' \<Longrightarrow> k' \<le> k"
    by blast
  have at: "spec_anchor_at s (c # take k cs) u"
    using s g k by (auto simp: spec_anchor_at_iff)
  have "length mid' \<le> length (c # take k cs)" if "spec_anchor_at s mid' u'" for mid' u'
  proof -
    from that s obtain k' where k': "k' \<le> length cs" "mid' = c # take k' cs"
      "GT \<notin> set (take k' cs)" "href_value (drop k' cs) = Some u'"
      by (auto simp: spec_anchor_at_iff)
    from mx [OF k'(1,3,4)] k'(1,2) k(1) show ?thesis by simp
  qed
  with at show ?thesis unfolding spec_anchor_here_def by blast
qed

lemma spec_anchor_here_unique:
  assumes "spec_anchor_here s u" and "spec_anchor_here s u'"
  shows "u = u'"
proof -
  from assms(1) obtain mid where m: "spec_anchor_at s mid u"
    and mx: "\<And>m2 u2. spec_anchor_at s m2 u2 \<Longrightarrow> length m2 \<le> length mid"
    unfolding spec_anchor_here_def by blast
  from assms(2) obtain mid' where m': "spec_anchor_at s mid' u'"
    and mx': "\<And>m2 u2. spec_anchor_at s m2 u2 \<Longrightarrow> length m2 \<le> length mid'"
    unfolding spec_anchor_here_def by blast
  from mx [OF m'] mx' [OF m] have len: "length mid = length mid'" by simp
  from m obtain a c cs k where s: "s = LT # a # c # cs" and k: "k \<le> length cs"
    "mid = c # take k cs" "href_value (drop k cs) = Some u"
    by (auto simp: spec_anchor_at_iff)
  from m' s obtain k' where k': "k' \<le> length cs" "mid' = c # take k' cs"
    "href_value (drop k' cs) = Some u'"
    by (auto simp: spec_anchor_at_iff)
  from len k(1,2) k'(1,2) have "k = k'" by simp
  with k(3) k'(3) show ?thesis by simp
qed

lemma spec_anchor_here_present:
  "spec_anchor_here s u \<Longrightarrow> \<not> spec_anchor_absent s"
  unfolding spec_anchor_here_def spec_anchor_absent_def by blast

lemma anchor_search_None: "anchor_search s = None \<Longrightarrow> spec_anchor_absent (drop i s)"
proof (induction s arbitrary: i)
  case Nil
  then show ?case by (simp add: anchor_at_None)
next
  case (Cons c cs)
  from Cons.prems have here: "anchor_at (c # cs) = None" and rest: "anchor_search cs = None"
    by (auto split: option.splits)
  show ?case
  proof (cases i)
    case 0
    with here show ?thesis by (simp add: anchor_at_None)
  next
    case (Suc j)
    with Cons.IH [OF rest, of j] show ?thesis by simp
  qed
qed

lemma anchor_search_Some: "anchor_search s = Some u \<Longrightarrow> spec_capture s u"
proof (induction s)
  case Nil
  then have "spec_anchor_here (drop 0 []) u" by (simp add: anchor_at_Some)
  then show ?case unfolding spec_capture_def by blast
next
  case (Cons c cs)
  show ?case
  proof (cases "anchor_at (c # cs)")
    case (Some v)
    with Cons.prems have "anchor_at (c # cs) = Some u" by simp
    then have "spec_anchor_here (drop 0 (c # cs)) u" by (simp add: anchor_at_Some)
    then show ?thesis unfolding spec_capture_def by blast
  next
    case None
    with Cons.prems have "anchor_search cs = Some u" by simp
    with Cons.IH obtain i where i: "spec_anchor_here (drop i cs) u"
      "\<And>j. j < i \<Longrightarrow> spec_anchor_absent (drop j cs)"
      unfolding spec_capture_def by blast
    have "spec_anchor_absent (drop j (c # cs))" if "j < Suc i" for j
    proof (cases j)
      case 0
      with None show ?thesis by (simp add: anchor_at_None)
    next
      case (Suc j')
      with that i(2) [of j'] show ?thesis by simp
    qed
    moreover have "spec_anchor_here (drop (Suc i) (c # cs)) u" using i(1) by simp
    ultimately show ?thesis unfolding spec_capture_def by blast
  qed
qed

lemma spec_capture_unique:
  assumes "spec_capture s u" and "spec_capture s u'"
  shows "u = u'"
proof -
  from assms(1) obtain i where i: "spec_anchor_here (drop i s) u"
    "\<And>j. j < i \<Longrightarrow> spec_anchor_absent (drop j s)"
    unfolding spec_capture_def by blast
  from assms(2) obtain i' where i': "spec_anchor_here (drop i' s) u'"
    "\<And>j. j < i' \<Longrightarrow> spec_anchor_absent (drop j s)"
    unfolding spec_capture_def by blast
  have "\<not> i < i'" using i(1) i'(2) spec_anchor_here_present by blast
  moreover have "\<not> i' < i" using i'(1) i(2) spec_anchor_here_present by blast
  ultimately have "i = i'" by simp
  with i(1) i'(1) show ?thesis by (simp add: spec_anchor_here_unique)
qed

lemma spec_capture_iff: "spec_capture s u \<longleftrightarrow> anchor_search s = Some u"
proof
  assume c: "spec_capture s u"
  show "anchor_search s = Some u"
  proof (cases "anchor_search s")
    case None
    from c obtain i where "spec_anchor_here (drop i s) u"
      unfolding spec_capture_def by blast
    with anchor_search_None [OF None, of i] show ?thesis
      using spec_anchor_here_present by blast
  next
    case (Some v)
    then have "spec_capture s v" by (rule anchor_search_Some)
    with c have "u = v" by (rule spec_capture_unique)
    with Some show ?thesis by simp
  qed
next
  assume "anchor_search s = Some u"
  then show "spec_capture s u" by (rule anchor_search_Some)
qed

lemma spec_no_anchor_iff: "spec_no_anchor s \<longleftrightarrow> anchor_search s = None"
proof
  assume n: "spec_no_anchor s"
  show "anchor_search s = None"
  proof (cases "anchor_search s")
    case None
    then show ?thesis .
  next
    case (Some v)
    then have "spec_capture s v" by (rule anchor_search_Some)
    then obtain i where "spec_anchor_here (drop i s) v"
      unfolding spec_capture_def by blast
    with n show ?thesis
      unfolding spec_no_anchor_def using spec_anchor_here_present by blast
  qed
next
  assume "anchor_search s = None"
  then show "spec_no_anchor s"
    unfolding spec_no_anchor_def by (simp add: anchor_search_None)
qed

lemma dropWhile_all: "(\<forall>c \<in> set a. P c) \<Longrightarrow> dropWhile P (a @ r) = dropWhile P r"
  by (induction a) auto

lemma spec_trim_iff: "spec_trim s r \<longleftrightarrow> r = String_trim s"
proof
  assume "spec_trim s r"
  then obtain a b where s: "s = a @ r @ b" and a: "\<forall>c \<in> set a. is_space c"
    and b: "\<forall>c \<in> set b. is_space c"
    and r: "r = [] \<or> (\<not> is_space (hd r) \<and> \<not> is_space (last r))"
    unfolding spec_trim_def by blast
  show "r = String_trim s"
  proof (cases "r = []")
    case True
    with s a b have "\<forall>c \<in> set s. is_space c" by auto
    then have "dropWhile is_space s = []" by simp
    then have "String_trim s = rev (dropWhile is_space (rev []))"
      by (simp only: String_trim_def)
    with True show ?thesis by simp
  next
    case False
    with r have hd: "\<not> is_space (hd r)" and lst: "\<not> is_space (last r)" by auto
    have "dropWhile is_space s = dropWhile is_space (r @ b)"
      using s a by (simp add: dropWhile_all)
    also have "\<dots> = r @ b"
      using False hd by (cases r) auto
    finally have d: "dropWhile is_space s = r @ b" .
    have "dropWhile is_space (rev (r @ b)) = dropWhile is_space (rev b @ rev r)" by simp
    also have "\<dots> = dropWhile is_space (rev r)"
      using b by (simp add: dropWhile_all)
    also have "\<dots> = rev r"
      using False lst by (cases "rev r") (auto simp: hd_rev)
    finally show ?thesis
      by (simp add: String_trim_def d)
  qed
next
  assume r: "r = String_trim s"
  let ?d = "dropWhile is_space s"
  let ?e = "dropWhile is_space (rev ?d)"
  have s: "s = takeWhile is_space s @ ?d" by simp
  have d: "?d = rev ?e @ rev (takeWhile is_space (rev ?d))"
    by (metis rev_append rev_rev_ident takeWhile_dropWhile_id)
  have rr: "r = rev ?e" using r by (simp add: String_trim_def)
  have "s = takeWhile is_space s @ r @ rev (takeWhile is_space (rev ?d))"
    using s d rr by metis
  moreover have "\<forall>c \<in> set (takeWhile is_space s). is_space c"
    by (auto dest: set_takeWhileD)
  moreover have "\<forall>c \<in> set (rev (takeWhile is_space (rev ?d))). is_space c"
    by (auto dest: set_takeWhileD)
  moreover have "\<not> is_space (hd r) \<and> \<not> is_space (last r)" if ne: "r \<noteq> []"
  proof -
    from ne rr have e: "?e \<noteq> []" by simp
    then have "\<not> is_space (hd ?e)" by (rule hd_dropWhile)
    then have l: "\<not> is_space (last r)" using rr e by (simp add: last_rev)
    from e have dne: "?d \<noteq> []"
      by (metis dropWhile.simps(1) rev.simps(1))
    then have "\<not> is_space (hd ?d)" by (rule hd_dropWhile)
    moreover have "hd ?d = hd r"
      using d rr ne by (metis hd_append2)
    ultimately show ?thesis using l by simp
  qed
  ultimately show "spec_trim s r"
    unfolding spec_trim_def by blast
qed

lemma spec_line_iff: "spec_line seg r \<longleftrightarrow> r = unwrapped seg"
  by (cases "anchor_search seg")
     (auto simp: spec_line_def unwrapped_def spec_capture_iff spec_no_anchor_iff spec_trim_iff)

lemma list_all2_spec_line: "list_all2 spec_line xs rs \<longleftrightarrow> rs = map unwrapped xs"
  by (induction xs arbitrary: rs) (auto simp: list_all2_Cons1 spec_line_iff)

lemma list_all2_spec_trim: "list_all2 spec_trim xs rs \<longleftrightarrow> rs = map String_trim xs"
  by (induction xs arbitrary: rs) (auto simp: list_all2_Cons1 spec_trim_iff)

section \<open>The paste action\<close>

lemma unwrapped_url:
  assumes "spec_url_pattern m"
  shows "unwrapped m = m"
proof -
  from spec_url_pattern_chars [OF assms] have ne: "m \<noteq> []" and ch: "\<forall>c \<in> set m. url_char c"
    by auto
  from ch have "LT \<notin> set m" by (auto dest: url_char_not_LT)
  then have "anchor_search m = None" by (rule no_LT_no_anchor)
  moreover have "String_trim m = m"
    using ne ch by (intro String_trim_id) (auto dest: url_char_not_space)
  ultimately show ?thesis by (simp add: unwrapped_def)
qed

lemma Action_paste_LineSplit:
  "Action_paste LineSplit s =
     (let us = filter (\<lambda>u. u \<noteq> []) (map unwrapped (String_split s))
      in (\<lparr>count = length us, error = None\<rparr>,
          map TabsCreate us @ [SendMessage (Paste_notice None)]))"
  by (simp add: Action_paste_def LineSplit_def Let_def unwrap_loop_eq create_loop_drop)

lemma extract_LineSplit:
  "extract_urls LineSplit s = filter (\<lambda>u. u \<noteq> []) (map unwrapped (String_split s))"
  by (simp add: extract_urls_def Action_paste_LineSplit Let_def created_urls_paste)

lemma Action_paste_RegexExtract:
  "Action_paste RegexExtract s =
     (if url_scan s = []
      then (\<lparr>count = 0, error = Some no_url_found\<rparr>,
            [SendMessage (Paste_notice (Some no_url_found))])
      else (\<lparr>count = length (url_scan s), error = None\<rparr>,
            map TabsCreate (url_scan s) @ [SendMessage (Paste_notice None)]))"
proof -
  have "map unwrapped (url_scan s) = url_scan s"
    using spec_url_matches_pattern [OF url_scan_matches] by (simp add: map_idI unwrapped_url)
  moreover have "filter (\<lambda>u. u \<noteq> []) (url_scan s) = url_scan s"
    using spec_url_matches_pattern [OF url_scan_matches] spec_url_pattern_chars
    by (auto simp: filter_id_conv)
  ultimately show ?thesis
    by (cases "url_scan s")
       (simp_all add: Action_paste_def RegexExtract_def String_match_urls_def Let_def
          unwrap_loop_eq create_loop_drop)
qed

lemma extract_RegexExtract: "extract_urls RegexExtract s = url_scan s"
  by (simp add: extract_urls_def Action_paste_RegexExtract created_urls_paste)
     (simp add: created_urls_def)

lemma paste_message_cases:
  "m = RegexExtract \<or> intelligent m \<noteq> Some True"
  by (cases m) (auto simp: RegexExtract_def)

lemma Action_paste_lines:
  assumes "intelligent m \<noteq> Some True"
  shows "Action_paste m s = Action_paste LineSplit s"
  using assms by (simp add: Action_paste_def LineSplit_def)

text \<open>
  What holds of \<^verbatim>\<open>Action.paste\<close> in every mode: the count is the number of tabs
  requested. In the pattern mode the error is returned exactly when no URL is found; in
  the line mode no error is returned at all. The reply of the listener does not depend
  on the outcome.
\<close>

lemma paste_count_created:
  "count (fst (Action_paste m s)) = length (extract_urls m s)"
proof (cases "intelligent m = Some True")
  case True
  then have "m = RegexExtract" using paste_message_cases by blast
  then show ?thesis
    by (simp add: extract_urls_def Action_paste_RegexExtract created_urls_paste)
       (simp add: created_urls_def)
next
  case False
  then show ?thesis
    by (simp add: extract_urls_def Action_paste_lines Action_paste_LineSplit Let_def
          created_urls_paste)
qed

lemma paste_regex_error:
  "extract_urls RegexExtract s = [] \<longleftrightarrow>
     fst (Action_paste RegexExtract s) = \<lparr>count = 0, error = Some no_url_found\<rparr>"
  by (simp add: extract_RegexExtract Action_paste_RegexExtract)

lemma paste_lines_no_error:
  "intelligent m \<noteq> Some True \<Longrightarrow> error (fst (Action_paste m s)) = None"
  by (simp add: Action_paste_lines Action_paste_LineSplit Let_def)

lemma paste_reply:
  "fst (onMessage_paste m s) = \<lparr>success = True, resp_count = None, resp_error = None\<rparr>"
  by (simp add: onMessage_paste_def promise_count_def split: prod.splits)

text \<open>
  Claim C1. The claim: when the extraction yields no URL, in particular for the empty
  clipboard in the line mode, \<^verbatim>\<open>Action.paste\<close> returns a failed result with the error
  \<^verbatim>\<open>No URL found in the clipboard\<close>. The code at the empty clipboard in the line mode:
  \<^verbatim>\<open>split\<close> gives the array of one empty line, and an array is truthy, so the test
  \<^verbatim>\<open>!urlList\<close> fails; the line is filtered out, no tab is requested, and the action
  returns \<^verbatim>\<open>{count: 0}\<close> without an error and sends \<^verbatim>\<open>{type: "paste"}\<close> without
  \<^verbatim>\<open>errorMsg\<close>. The listener replies \<^verbatim>\<open>{success: true, count: undefined}\<close>.
\<close>

theorem C1_paste_empty_clipboard:
  "Action_paste LineSplit [] =
     (\<lparr>count = 0, error = None\<rparr>, [SendMessage (Paste_notice None)])
   \<and> extract_urls LineSplit [] = []
   \<and> fst (onMessage_paste LineSplit []) =
       \<lparr>success = True, resp_count = None, resp_error = None\<rparr>"
  by (simp add: Action_paste_LineSplit extract_LineSplit paste_reply String_split_def
        unwrapped_Nil)

text \<open>
  Claim C5. In the line mode the extractor splits the text on newlines, replaces a
  segment that holds an HTML anchor by the anchor's URL, trims every segment and drops
  the empty ones, in order and with duplicates: whatever list the specification
  \<open>spec_line\<close> makes of the lines, and it makes one, the extractor returns its non-empty
  members. The segments are the lines of the text: joined with newlines they give the
  text back, and none holds a newline. For a text without an anchor the result is the
  non-empty trimmed lines. An anchor around \<^verbatim>\<open>http://x.test\<close> gives that URL.
\<close>

theorem C5_LineSplit:
  "(\<exists>rs. list_all2 spec_line (String_split s) rs)
   \<and> (\<forall>rs. list_all2 spec_line (String_split s) rs \<longrightarrow>
          extract_urls LineSplit s = filter (\<lambda>u. u \<noteq> []) rs)
   \<and> concat (map (\<lambda>l. l @ [LF]) (String_split s)) = s @ [LF]
   \<and> (\<forall>l \<in> set (String_split s). LF \<notin> set l)
   \<and> (spec_no_anchor s \<longrightarrow>
        (\<forall>rs. list_all2 spec_trim (String_split s) rs \<longrightarrow>
           extract_urls LineSplit s = filter (\<lambda>u. u \<noteq> []) rs))
   \<and> extract_urls LineSplit
         (js ''<a href='' @ [QUOTE] @ js ''http://x.test'' @ [QUOTE] @ js ''>x</a>'')
       = [js ''http://x.test'']"
proof -
  have ex: "\<exists>rs. list_all2 spec_line (String_split s) rs"
    by (simp add: list_all2_spec_line)
  have all: "\<forall>rs. list_all2 spec_line (String_split s) rs \<longrightarrow>
          extract_urls LineSplit s = filter (\<lambda>u. u \<noteq> []) rs"
    by (simp add: list_all2_spec_line extract_LineSplit)
  have plain: "extract_urls LineSplit s = filter (\<lambda>u. u \<noteq> []) rs"
    if no: "spec_no_anchor s" and rs: "list_all2 spec_trim (String_split s) rs" for rs
  proof -
    from no have none: "anchor_search s = None" by (simp add: spec_no_anchor_iff)
    have "unwrapped l = String_trim l" if "l \<in> set (String_split s)" for l
      using no_anchor_segments [OF none that] by (simp add: unwrapped_def)
    then have "map unwrapped (String_split s) = map String_trim (String_split s)"
      by simp
    moreover from rs have "rs = map String_trim (String_split s)"
      by (simp add: list_all2_spec_trim)
    ultimately show ?thesis by (simp only: extract_LineSplit)
  qed
  have segs: "\<forall>l \<in> set (String_split s). LF \<notin> set l"
    using split_from_segments [of "[]" _ s] by (auto simp: String_split_def)
  have join: "concat (map (\<lambda>l. l @ [LF]) (String_split s)) = s @ [LF]"
    by (simp add: String_split_def split_from_join)
  have example: "extract_urls LineSplit
         (js ''<a href='' @ [QUOTE] @ js ''http://x.test'' @ [QUOTE] @ js ''>x</a>'')
       = [js ''http://x.test'']"
    by (simp add: extract_LineSplit unwrapped_def String_split_def js_def LF_def QUOTE_def
          String_trim_def is_space_def anchor_at_def LT_def GT_def href_value_def ci_eq_def
          canon_def)
  from ex all plain segs join example show ?thesis
    by blast
qed

text \<open>
  The line mode on a text of three lines, a padded URL, an empty line and an anchor,
  and on a text of three lines without an anchor.
\<close>

lemma lines_with_anchor:
  "list_all2 spec_line
     (String_split (js '' http://a.test '' @ [LF, LF] @ js ''<a href='' @ [QUOTE]
                    @ js ''http://x.test'' @ [QUOTE] @ js ''>x</a>''))
     [js ''http://a.test'', [], js ''http://x.test'']"
  by (simp add: spec_line_iff unwrapped_def String_split_def js_def LF_def QUOTE_def
        String_trim_def is_space_def anchor_at_def LT_def GT_def href_value_def ci_eq_def
        canon_def)

lemma lines_without_anchor:
  "spec_no_anchor (js '' http://a.test '' @ [LF, LF] @ js ''http://b.test'')"
  "list_all2 spec_trim
     (String_split (js '' http://a.test '' @ [LF, LF] @ js ''http://b.test''))
     [js ''http://a.test'', [], js ''http://b.test'']"
  by (simp_all add: spec_no_anchor_iff spec_trim_iff String_split_def js_def LF_def
        String_trim_def is_space_def anchor_at_def LT_def)

theorem C5_LineSplit_witness:
  "extract_urls LineSplit
     (js '' http://a.test '' @ [LF, LF] @ js ''<a href='' @ [QUOTE]
      @ js ''http://x.test'' @ [QUOTE] @ js ''>x</a>'')
     = [js ''http://a.test'', js ''http://x.test'']
   \<and> extract_urls LineSplit (js '' http://a.test '' @ [LF, LF] @ js ''http://b.test'')
     = [js ''http://a.test'', js ''http://b.test'']"
proof -
  have "extract_urls LineSplit
     (js '' http://a.test '' @ [LF, LF] @ js ''<a href='' @ [QUOTE]
      @ js ''http://x.test'' @ [QUOTE] @ js ''>x</a>'')
     = filter (\<lambda>u. u \<noteq> []) [js ''http://a.test'', [], js ''http://x.test'']"
    using C5_LineSplit [THEN conjunct2, THEN conjunct1, rule_format, OF lines_with_anchor] .
  moreover have "extract_urls LineSplit (js '' http://a.test '' @ [LF, LF] @ js ''http://b.test'')
     = filter (\<lambda>u. u \<noteq> []) [js ''http://a.test'', [], js ''http://b.test'']"
    using C5_LineSplit [THEN conjunct2, THEN conjunct2, THEN conjunct2, THEN conjunct2,
        THEN conjunct1, rule_format, OF lines_without_anchor] .
  ultimately show ?thesis
    by (simp add: js_def)
qed

lemma example_scan:
  "url_scan (js ''visit http://a.test and https://b.test/path'') =
     [js ''http://a.test'', js ''https://b.test/path'']"
  by code_simp

text \<open>
  Claim C6. In the pattern mode the extractor returns the matches of the URL pattern
  (the schemes http, https, ftp, ssh and mailto, \<^verbatim>\<open>://\<close>, permitted characters) in
  the text, from left to right, none overlapping another and none left out: the list
  it returns is the one list that \<open>spec_url_matches\<close> admits. On the text of the example
  it returns the two URLs.
\<close>

theorem C6_RegexExtract:
  "(spec_url_matches s ms \<longleftrightarrow> ms = extract_urls RegexExtract s)
   \<and> extract_urls RegexExtract (js ''visit http://a.test and https://b.test/path'') =
       [js ''http://a.test'', js ''https://b.test/path'']"
  using spec_url_matches_unique [of s ms] url_scan_matches [of s]
  by (auto simp: extract_RegexExtract example_scan)

text \<open>The pattern mode on a text with one URL in upper case.\<close>

lemma witness_scan:
  "url_scan (js ''go to HTTPS://A.b/c?d=e now'') = [js ''HTTPS://A.b/c?d=e'']"
  by code_simp

theorem C6_RegexExtract_witness:
  "spec_url_matches (js ''go to HTTPS://A.b/c?d=e now'') [js ''HTTPS://A.b/c?d=e'']"
  using C6_RegexExtract [of "js ''go to HTTPS://A.b/c?d=e now''" "[js ''HTTPS://A.b/c?d=e'']"]
  by (simp add: extract_RegexExtract witness_scan)

section \<open>Copy, then paste\<close>

lemma CopyTo_text_last:
  assumes "T \<noteq> []"
  shows "last (CopyTo_text T) = LF"
proof -
  from assms obtain ts t where "T = ts @ [t]"
    by (cases T rule: rev_cases) auto
  then show ?thesis by (simp add: CopyTo_text_concat)
qed

lemma split_CopyTo_text:
  assumes "\<forall>t \<in> set T. LF \<notin> set (url t)"
  shows "String_split (CopyTo_text T) = map url T @ [[]]"
proof -
  have "CopyTo_text T = concat (map (\<lambda>u. u @ [LF]) (map url T))"
    by (simp add: CopyTo_text_concat comp_def)
  moreover have "\<forall>u \<in> set (map url T). LF \<notin> set u"
    using assms by simp
  ultimately show ?thesis
    using split_lines_concat [of "map url T"] by (simp add: String_split_def)
qed

lemma extract_CopyTo_text:
  assumes "\<forall>t \<in> set T. LF \<notin> set (url t) \<and> String_trim (url t) \<noteq> []
             \<and> anchor_search (url t) = None"
  shows "extract_urls LineSplit (CopyTo_text T) = map (\<lambda>t. String_trim (url t)) T"
proof -
  have sp: "String_split (CopyTo_text T) = map url T @ [[]]"
    using assms by (simp add: split_CopyTo_text)
  have un: "map unwrapped (map url T) = map (\<lambda>t. String_trim (url t)) T"
    using assms by (simp add: unwrapped_def)
  have "extract_urls LineSplit (CopyTo_text T)
          = filter (\<lambda>u. u \<noteq> []) (map unwrapped (map url T @ [[]]))"
    by (simp only: extract_LineSplit sp)
  also have "\<dots> = filter (\<lambda>u. u \<noteq> []) (map unwrapped (map url T))"
    by (simp add: unwrapped_Nil)
  also have "\<dots> = filter (\<lambda>u. u \<noteq> []) (map (\<lambda>t. String_trim (url t)) T)"
    by (simp only: un)
  also have "\<dots> = map (\<lambda>t. String_trim (url t)) T"
    using assms by (simp add: filter_id_conv)
  finally show ?thesis .
qed

text \<open>
  Claim C4, amended. For every non-empty sequence of tabs the text ends with a newline.
  When no URL holds a newline, splitting the text on newlines gives the URLs in order
  and one empty segment behind them. When moreover every URL is non-empty after
  trimming and holds no anchor, the line mode on the text gives the trimmed URLs in
  order, which are the URLs themselves when trimming leaves them as they are.
\<close>

theorem C4_round_trip:
  "(T \<noteq> [] \<longrightarrow> last (CopyTo_text T) = LF)
   \<and> ((\<forall>t \<in> set T. LF \<notin> set (url t)) \<longrightarrow>
        String_split (CopyTo_text T) = map url T @ [[]])
   \<and> ((\<forall>t \<in> set T. LF \<notin> set (url t) \<and> String_trim (url t) \<noteq> []
                    \<and> anchor_search (url t) = None) \<longrightarrow>
        extract_urls LineSplit (CopyTo_text T) = map (\<lambda>t. String_trim (url t)) T)
   \<and> ((\<forall>t \<in> set T. LF \<notin> set (url t) \<and> url t \<noteq> [] \<and> String_trim (url t) = url t
                    \<and> anchor_search (url t) = None) \<longrightarrow>
        extract_urls LineSplit (CopyTo_text T) = map url T)"
proof -
  have "extract_urls LineSplit (CopyTo_text T) = map url T"
    if h: "\<forall>t \<in> set T. LF \<notin> set (url t) \<and> url t \<noteq> [] \<and> String_trim (url t) = url t
                    \<and> anchor_search (url t) = None"
  proof -
    from h have "extract_urls LineSplit (CopyTo_text T) = map (\<lambda>t. String_trim (url t)) T"
      by (intro extract_CopyTo_text) auto
    also have "\<dots> = map url T" using h by simp
    finally show ?thesis .
  qed
  then show ?thesis
    using CopyTo_text_last split_CopyTo_text extract_CopyTo_text by blast
qed

text \<open>The round trip on the tabs \<^verbatim>\<open>http://a.test\<close> and \<^verbatim>\<open>https://b.test/path\<close>.\<close>

lemma example_urls:
  "LF \<notin> set (js ''http://a.test'')" "LF \<notin> set (js ''https://b.test/path'')"
  "String_trim (js ''http://a.test'') = js ''http://a.test''"
  "String_trim (js ''https://b.test/path'') = js ''https://b.test/path''"
  "anchor_search (js ''http://a.test'') = None"
  "anchor_search (js ''https://b.test/path'') = None"
  by (simp_all add: js_def LF_def String_trim_def is_space_def anchor_at_def LT_def)

theorem C4_round_trip_witness:
  "extract_urls LineSplit
     (CopyTo_text [\<lparr>url = js ''http://a.test'', title = [], windowId = 1, highlighted = True\<rparr>,
                   \<lparr>url = js ''https://b.test/path'', title = [], windowId = 1, highlighted = False\<rparr>])
   = [js ''http://a.test'', js ''https://b.test/path'']"
  using C4_round_trip
    [of "[\<lparr>url = js ''http://a.test'', title = [], windowId = 1, highlighted = True\<rparr>,
          \<lparr>url = js ''https://b.test/path'', title = [], windowId = 1, highlighted = False\<rparr>]"]
  by (simp add: example_urls) (simp add: js_def)

text \<open>
  Claim C4 as it is stated fails on a URL that holds a newline: the text splits into
  two lines, and the line mode opens two tabs. It fails as well on a URL that begins
  with a space, which the line mode trims. Both URLs are non-empty after trimming and
  hold no anchor.
\<close>

theorem C4_counterexample:
  "butlast (String_split (CopyTo_text
       [\<lparr>url = js ''a'' @ [LF] @ js ''b'', title = [], windowId = 1, highlighted = True\<rparr>]))
     \<noteq> [js ''a'' @ [LF] @ js ''b'']
   \<and> String_trim (js ''a'' @ [LF] @ js ''b'') \<noteq> []
   \<and> anchor_search (js ''a'' @ [LF] @ js ''b'') = None
   \<and> extract_urls LineSplit (CopyTo_text
       [\<lparr>url = js ''a'' @ [LF] @ js ''b'', title = [], windowId = 1, highlighted = True\<rparr>])
     \<noteq> [js ''a'' @ [LF] @ js ''b'']
   \<and> LF \<notin> set (js '' c'')
   \<and> String_trim (js '' c'') \<noteq> []
   \<and> anchor_search (js '' c'') = None
   \<and> extract_urls LineSplit (CopyTo_text
       [\<lparr>url = js '' c'', title = [], windowId = 1, highlighted = True\<rparr>])
     \<noteq> [js '' c'']"
  by (simp add: CopyTo_text_concat extract_LineSplit unwrapped_def String_split_def js_def
        LF_def String_trim_def is_space_def anchor_at_def LT_def)

section \<open>The copy action\<close>

text \<open>
  The reply of the copy branch carries the \<^verbatim>\<open>tabCount\<close> of the moment
  \<^verbatim>\<open>Action.copy\<close> returned, whatever the tabs are; the callback counts the tabs it
  formats.
\<close>

lemma copy_reply:
  "fst (onMessage_copy m b) = \<lparr>success = True, resp_count = Some 0, resp_error = None\<rparr>"
  by (simp add: onMessage_copy_def Action_copy_def Let_def split: prod.splits)

lemma copy_callback_count:
  "tabCount (fst (copy_callback tabs b)) = length tabs
   \<and> tabs_filtered (fst (copy_callback tabs b)) = tabs
   \<and> outputText (fst (copy_callback tabs b)) = CopyTo_text tabs"
  by (simp add: copy_callback_def Let_def split: prod.splits)

text \<open>
  Claim C2. The claim: the copy handler replies \<^verbatim>\<open>{success: true, count: n}\<close> with
  \<open>n\<close> the number of tabs formatted into the clipboard text. The code on the message
  of the popup, \<^verbatim>\<open>{action: "copy", window: {}, allWindows: true}\<close>, with one tab open:
  the reply has the count 0, while the callback formats one tab into the text.
\<close>

theorem C2_copy_reply_count:
  "fst (onMessage_copy \<lparr>msg_window = Some \<lparr>window_id = None\<rparr>, allWindows = Some True\<rparr>
          \<lparr>open_tabs = [\<lparr>url = js ''http://a.test'', title = [], windowId = 1,
                         highlighted = True\<rparr>],
           current_window = Some \<lparr>window_id = Some 1\<rparr>, offscreen = None,
           createDocument_calls = 0\<rparr>)
     = \<lparr>success = True, resp_count = Some 0, resp_error = None\<rparr>
   \<and> tabCount (fst (snd (onMessage_copy
          \<lparr>msg_window = Some \<lparr>window_id = None\<rparr>, allWindows = Some True\<rparr>
          \<lparr>open_tabs = [\<lparr>url = js ''http://a.test'', title = [], windowId = 1,
                         highlighted = True\<rparr>],
           current_window = Some \<lparr>window_id = Some 1\<rparr>, offscreen = None,
           createDocument_calls = 0\<rparr>))) = 1
   \<and> outputText (fst (snd (onMessage_copy
          \<lparr>msg_window = Some \<lparr>window_id = None\<rparr>, allWindows = Some True\<rparr>
          \<lparr>open_tabs = [\<lparr>url = js ''http://a.test'', title = [], windowId = 1,
                         highlighted = True\<rparr>],
           current_window = Some \<lparr>window_id = Some 1\<rparr>, offscreen = None,
           createDocument_calls = 0\<rparr>))) = js ''http://a.test'' @ [LF]"
  by (simp add: onMessage_copy_def Action_copy_def run_pending_def copy_callback_def
        copy_tabQuery_def getAllWindows_def truthy_id_def chrome_tabs_query_def
        Clipboard_write_def CopyTo_text_concat Let_def split: prod.splits)

text \<open>
  Claim C9, amended. When the command asks for all windows (or does not say), the
  query has no \<^verbatim>\<open>windowId\<close> and every open tab is formatted. When it asks for one
  window and the window's id \<open>w\<close> is not 0, the query has the \<^verbatim>\<open>windowId\<close> \<open>w\<close> and
  exactly the tabs of that window are formatted. Both hold of \<^verbatim>\<open>Action.copy\<close> and of
  the command as the listener receives it.
\<close>

theorem C9_scope:
  "(getAllWindows opt \<longrightarrow>
      copy_tabQuery opt = \<lparr>q_windowId = None\<rparr>
      \<and> tabs_filtered (fst (run_pending (snd (Action_copy opt)) b)) = open_tabs b)
   \<and> (\<not> getAllWindows opt \<and> opt_window opt = Some \<lparr>window_id = Some w\<rparr> \<and> w \<noteq> 0 \<longrightarrow>
      copy_tabQuery opt = \<lparr>q_windowId = Some w\<rparr>
      \<and> tabs_filtered (fst (run_pending (snd (Action_copy opt)) b))
          = filter (\<lambda>t. windowId t = w) (open_tabs b))
   \<and> (allWindows m \<noteq> Some False \<longrightarrow>
      tabs_filtered (fst (snd (onMessage_copy m b))) = open_tabs b)
   \<and> (allWindows m = Some False \<and> msg_window m = Some \<lparr>window_id = Some w\<rparr> \<and> w \<noteq> 0 \<longrightarrow>
      tabs_filtered (fst (snd (onMessage_copy m b)))
        = filter (\<lambda>t. windowId t = w) (open_tabs b))"
proof -
  have action: "tabs_filtered (fst (run_pending (snd (Action_copy o')) b))
                  = chrome_tabs_query (copy_tabQuery o') (open_tabs b)" for o'
    by (simp add: Action_copy_def run_pending_def copy_callback_count)
  have listener: "tabs_filtered (fst (snd (onMessage_copy m b)))
      = chrome_tabs_query
          (copy_tabQuery \<lparr>opt_window = (if truthy_id (msg_window m) = None then current_window b
                                          else msg_window m),
                          opt_message = Some m\<rparr>) (open_tabs b)"
    by (simp add: onMessage_copy_def Action_copy_def run_pending_def copy_callback_count
          Let_def split: prod.splits)
  have all: "allWindows m \<noteq> Some False \<Longrightarrow>
      getAllWindows \<lparr>opt_window = x, opt_message = Some m\<rparr>" for x
    by (cases "allWindows m") (auto simp: getAllWindows_def)
  show ?thesis
    by (simp add: action listener)
       (auto simp: copy_tabQuery_def truthy_id_def chrome_tabs_query_def getAllWindows_def
          dest: all)
qed

text \<open>The scope of a copy with two windows open, one window asked for and all.\<close>

theorem C9_scope_witness:
  "map url (tabs_filtered (fst (snd (onMessage_copy
      \<lparr>msg_window = Some \<lparr>window_id = Some 5\<rparr>, allWindows = Some False\<rparr>
      \<lparr>open_tabs = [\<lparr>url = js ''http://a.test'', title = [], windowId = 5, highlighted = True\<rparr>,
                    \<lparr>url = js ''http://b.test'', title = [], windowId = 6, highlighted = True\<rparr>],
       current_window = Some \<lparr>window_id = Some 6\<rparr>, offscreen = None,
       createDocument_calls = 0\<rparr>))))
     = [js ''http://a.test'']
   \<and> map url (tabs_filtered (fst (run_pending (snd (Action_copy
      \<lparr>opt_window = Some \<lparr>window_id = Some 5\<rparr>,
       opt_message = Some \<lparr>msg_window = Some \<lparr>window_id = Some 5\<rparr>,
                            allWindows = Some False\<rparr>\<rparr>))
      \<lparr>open_tabs = [\<lparr>url = js ''http://a.test'', title = [], windowId = 5, highlighted = True\<rparr>,
                    \<lparr>url = js ''http://b.test'', title = [], windowId = 6, highlighted = True\<rparr>],
       current_window = Some \<lparr>window_id = Some 6\<rparr>, offscreen = None,
       createDocument_calls = 0\<rparr>)))
     = [js ''http://a.test'']
   \<and> map url (tabs_filtered (fst (run_pending (snd (Action_copy
      \<lparr>opt_window = Some \<lparr>window_id = Some 5\<rparr>,
       opt_message = Some \<lparr>msg_window = Some \<lparr>window_id = Some 5\<rparr>,
                            allWindows = Some True\<rparr>\<rparr>))
      \<lparr>open_tabs = [\<lparr>url = js ''http://a.test'', title = [], windowId = 5, highlighted = True\<rparr>,
                    \<lparr>url = js ''http://b.test'', title = [], windowId = 6, highlighted = True\<rparr>],
       current_window = Some \<lparr>window_id = Some 6\<rparr>, offscreen = None,
       createDocument_calls = 0\<rparr>)))
     = [js ''http://a.test'', js ''http://b.test'']"
  using C9_scope
    [where opt = "\<lparr>opt_window = Some \<lparr>window_id = Some 5\<rparr>,
          opt_message = Some \<lparr>msg_window = Some \<lparr>window_id = Some 5\<rparr>,
                               allWindows = Some False\<rparr>\<rparr>"
       and m = "\<lparr>msg_window = Some \<lparr>window_id = Some 5\<rparr>, allWindows = Some False\<rparr>"
       and w = 5
       and b = "\<lparr>open_tabs = [\<lparr>url = js ''http://a.test'', title = [], windowId = 5, highlighted = True\<rparr>,
                    \<lparr>url = js ''http://b.test'', title = [], windowId = 6, highlighted = True\<rparr>],
       current_window = Some \<lparr>window_id = Some 6\<rparr>, offscreen = None,
       createDocument_calls = 0\<rparr>"]
    C9_scope
    [where opt = "\<lparr>opt_window = Some \<lparr>window_id = Some 5\<rparr>,
          opt_message = Some \<lparr>msg_window = Some \<lparr>window_id = Some 5\<rparr>,
                               allWindows = Some True\<rparr>\<rparr>"
       and w = 5
       and b = "\<lparr>open_tabs = [\<lparr>url = js ''http://a.test'', title = [], windowId = 5, highlighted = True\<rparr>,
                    \<lparr>url = js ''http://b.test'', title = [], windowId = 6, highlighted = True\<rparr>],
       current_window = Some \<lparr>window_id = Some 6\<rparr>, offscreen = None,
       createDocument_calls = 0\<rparr>"]
  by (simp add: getAllWindows_def)

text \<open>
  Claim C9 as it is stated fails on the window id 0, which the test
  \<^verbatim>\<open>opt.window && opt.window.id\<close> takes for no id: the query has no \<^verbatim>\<open>windowId\<close>
  and the tab of the window 1 is formatted too.
\<close>

theorem C9_counterexample:
  "\<not> getAllWindows
      \<lparr>opt_window = Some \<lparr>window_id = Some 0\<rparr>,
       opt_message = Some \<lparr>msg_window = Some \<lparr>window_id = Some 0\<rparr>,
                            allWindows = Some False\<rparr>\<rparr>
   \<and> q_windowId (copy_tabQuery
      \<lparr>opt_window = Some \<lparr>window_id = Some 0\<rparr>,
       opt_message = Some \<lparr>msg_window = Some \<lparr>window_id = Some 0\<rparr>,
                            allWindows = Some False\<rparr>\<rparr>) = None
   \<and> map windowId (tabs_filtered (fst (run_pending (snd (Action_copy
      \<lparr>opt_window = Some \<lparr>window_id = Some 0\<rparr>,
       opt_message = Some \<lparr>msg_window = Some \<lparr>window_id = Some 0\<rparr>,
                            allWindows = Some False\<rparr>\<rparr>))
      \<lparr>open_tabs = [\<lparr>url = js ''http://a.test'', title = [], windowId = 0, highlighted = True\<rparr>,
                    \<lparr>url = js ''http://b.test'', title = [], windowId = 1, highlighted = True\<rparr>],
       current_window = Some \<lparr>window_id = Some 0\<rparr>, offscreen = None,
       createDocument_calls = 0\<rparr>))) = [0, 1]"
  by (simp add: getAllWindows_def copy_tabQuery_def truthy_id_def Action_copy_def
        run_pending_def copy_callback_count chrome_tabs_query_def)

section \<open>The helper\<close>

text \<open>
  Claim C7. Two calls of \<^verbatim>\<open>createOffscreenDocumentIfNeeded\<close> in sequence, from any
  state, leave one offscreen document, and the second call changes nothing. A call
  made while a document exists returns without calling
  \<^verbatim>\<open>chrome.offscreen.createDocument\<close>; a call made while none exists calls it once.
\<close>

theorem C7_ensure_ready_idempotent:
  "length (getContexts (createOffscreenDocumentIfNeeded (createOffscreenDocumentIfNeeded b))) = 1
   \<and> createOffscreenDocumentIfNeeded (createOffscreenDocumentIfNeeded b)
       = createOffscreenDocumentIfNeeded b
   \<and> (offscreen b \<noteq> None \<longrightarrow> createOffscreenDocumentIfNeeded b = b)
   \<and> (offscreen b = None \<longrightarrow>
        createDocument_calls (createOffscreenDocumentIfNeeded b) = createDocument_calls b + 1
        \<and> offscreen (createOffscreenDocumentIfNeeded b) = Some new_document)"
  by (cases "offscreen b")
     (simp_all add: createOffscreenDocumentIfNeeded_def getContexts_def createDocument_def Let_def)

text \<open>Two calls from the state without a document, and one call with a document.\<close>

theorem C7_ensure_ready_witness:
  "createDocument_calls (createOffscreenDocumentIfNeeded (createOffscreenDocumentIfNeeded
      \<lparr>open_tabs = [], current_window = None, offscreen = None, createDocument_calls = 0\<rparr>)) = 1
   \<and> length (getContexts (createOffscreenDocumentIfNeeded (createOffscreenDocumentIfNeeded
      \<lparr>open_tabs = [], current_window = None, offscreen = None, createDocument_calls = 0\<rparr>))) = 1
   \<and> createOffscreenDocumentIfNeeded
      \<lparr>open_tabs = [], current_window = None, offscreen = Some new_document,
       createDocument_calls = 1\<rparr>
     = \<lparr>open_tabs = [], current_window = None, offscreen = Some new_document,
        createDocument_calls = 1\<rparr>"
  using C7_ensure_ready_idempotent
    [of "\<lparr>open_tabs = [], current_window = None, offscreen = None, createDocument_calls = 0\<rparr>"]
    C7_ensure_ready_idempotent
    [of "\<lparr>open_tabs = [], current_window = None, offscreen = Some new_document,
          createDocument_calls = 1\<rparr>"]
  by auto

lemma placeholder_nonempty: "js ''<empty>'' \<noteq> []"
  by (simp add: js_def)

lemma writeToClipboard_text:
  "clipboard_text (snd (writeToClipboard str x st)) = Some (spec_written_text str)"
  by (cases st)
     (simp add: writeToClipboard_def execCommand_copy_def run_handler_def write_handler_def
        clipboard_text_def spec_written_text_def Let_def)

text \<open>
  Claim C8. \<^verbatim>\<open>Clipboard.write\<close> sends the helper the placeholder \<^verbatim>\<open><empty>\<close> for
  the empty string and for \<^verbatim>\<open>undefined\<close> and the text itself otherwise; the helper
  writes what it is sent, with the same substitution of its own. The plain text of the
  clipboard after a write is never empty, and a non-empty text is written unchanged.
\<close>

theorem C8_placeholder:
  "fst (Clipboard_write str x b) = Offscreen_copy (Some (spec_written_text str)) x
   \<and> clipboard_text (snd (helper_onMessage (fst (Clipboard_write str x b)) st))
       = Some (spec_written_text str)
   \<and> clipboard_text (snd (writeToClipboard str x st)) = Some (spec_written_text str)
   \<and> spec_written_text str \<noteq> []
   \<and> spec_written_text None = js ''<empty>'' \<and> spec_written_text (Some []) = js ''<empty>''
   \<and> (\<forall>t. t \<noteq> [] \<longrightarrow> spec_written_text (Some t) = t)"
proof -
  have w: "fst (Clipboard_write str x b) = Offscreen_copy (Some (spec_written_text str)) x"
    by (cases str) (auto simp: Clipboard_write_def spec_written_text_def Let_def)
  have ww: "spec_written_text (Some (spec_written_text str)) = spec_written_text str"
    by (cases str) (auto simp: spec_written_text_def placeholder_nonempty)
  have "spec_written_text str \<noteq> []"
    by (cases str) (auto simp: spec_written_text_def placeholder_nonempty)
  then show ?thesis
    using w ww by (simp add: helper_onMessage_def writeToClipboard_text) (simp add: spec_written_text_def)
qed

text \<open>Writes of the empty string, of \<^verbatim>\<open>undefined\<close> and of one URL.\<close>

theorem C8_placeholder_witness:
  "clipboard_text (snd (writeToClipboard (Some []) None (new_document, []))) = Some (js ''<empty>'')
   \<and> clipboard_text (snd (writeToClipboard None (Some True) (new_document, []))) = Some (js ''<empty>'')
   \<and> clipboard_text (snd (writeToClipboard (Some (js ''http://a.test'' @ [LF])) (Some False)
         (new_document, []))) = Some (js ''http://a.test'' @ [LF])"
  using C8_placeholder [of "Some []" None _ "(new_document, [])"]
    C8_placeholder [of None "Some True" _ "(new_document, [])"]
    C8_placeholder [of "Some (js ''http://a.test'' @ [LF])" "Some False" _ "(new_document, [])"]
  by (simp add: spec_written_text_def js_def)

text \<open>
  Claim C10. \<^verbatim>\<open>writeToClipboard\<close> leaves \<^verbatim>\<open>document.oncopy\<close> as it found it, with
  and without \<^verbatim>\<open>extendedMime\<close>. Its own handler is in place while the copy command
  runs: with \<^verbatim>\<open>extendedMime\<close> the clipboard gets both MIME types from the handler,
  without it the selected text of the textarea.
\<close>

theorem C10_oncopy_restored:
  "oncopy (fst (writeToClipboard str x (d, cb))) = oncopy d
   \<and> snd (writeToClipboard str (Some True) (d, cb))
       = [(''text/html'', spec_written_text str), (''text/plain'', spec_written_text str)]
   \<and> snd (writeToClipboard str (Some False) (d, cb)) = [(''text/plain'', spec_written_text str)]
   \<and> snd (writeToClipboard str None (d, cb)) = [(''text/plain'', spec_written_text str)]"
  by (simp add: writeToClipboard_def execCommand_copy_def run_handler_def write_handler_def
        spec_written_text_def Let_def)

text \<open>A write with a handler of other code installed before.\<close>

theorem C10_oncopy_restored_witness:
  "oncopy (fst (writeToClipboard (Some (js ''http://a.test'' @ [LF])) (Some True)
      (\<lparr>buffer_value = [], selection = [], oncopy = Some (Foreign_handler 7)\<rparr>, [])))
   = Some (Foreign_handler 7)"
  using C10_oncopy_restored [of "Some (js ''http://a.test'' @ [LF])" "Some True"
      "\<lparr>buffer_value = [], selection = [], oncopy = Some (Foreign_handler 7)\<rparr>" "[]"]
  by simp

end
